theory Spec2Isabelle
  imports Complex_Main "HOL-Library.Word" "HOL-Library.Multiset" "HOL-Library.Log_Nat"
begin

unbundle bit_operations_syntax

chapter \<open>The model\<close>

section \<open>ISBN position to pixel (common.py, \<open>get_isbn_code_pos\<close>)\<close>

text \<open>
  \<^verbatim>\<open>
  def get_isbn_code_pos(code: int) -> tuple[int, int]:
      x = 0
      y = 0
      i = 0
      while code > 0:
          inc = (code % 10) * 10 ** (i // 2)
          if i % 2 == 0:
              x += inc
          else:
              y += inc
          code //= 10
          i += 1
      return x, y
  \<close>
  The \<open>while\<close> loop is the recursive function \<open>get_isbn_code_pos_loop\<close> over the loop
  variables \<open>code\<close>, \<open>i\<close>, \<open>x\<close>, \<open>y\<close>; Python's unbounded integers are \<open>int\<close>, and
  \<open>//\<close>, \<open>%\<close> round as \<open>div\<close>, \<open>mod\<close> do. The loop ends because \<open>code\<close> shrinks
  while it is positive.
\<close>

function get_isbn_code_pos_loop :: "int \<Rightarrow> nat \<Rightarrow> int \<Rightarrow> int \<Rightarrow> int \<times> int" where
  "get_isbn_code_pos_loop code i x y =
     (if code > 0 then
        (if i mod 2 = 0
         then get_isbn_code_pos_loop (code div 10) (i + 1) (x + (code mod 10) * 10 ^ (i div 2)) y
         else get_isbn_code_pos_loop (code div 10) (i + 1) x (y + (code mod 10) * 10 ^ (i div 2)))
      else (x, y))"
  by pat_completeness auto
termination
  by (relation "measure (\<lambda>(code, i, x, y). nat code)") auto

definition get_isbn_code_pos :: "int \<Rightarrow> int \<times> int" where
  "get_isbn_code_pos code = get_isbn_code_pos_loop code 0 0 0"

text \<open>
  The decimal digit of \<open>c\<close> at index \<open>i\<close>, least significant first; \<open>even_digits\<close>,
  \<open>odd_digits\<close> and \<open>interleave\<close> are the closed form of the loop and its inverse, used in
  the proofs only.
\<close>

definition digit_at :: "int \<Rightarrow> nat \<Rightarrow> int" where
  "digit_at c i = (c div 10 ^ i) mod 10"

function even_digits :: "int \<Rightarrow> int" where
  "even_digits c = (if c > 0 then c mod 10 + 10 * even_digits (c div 100) else 0)"
  by pat_completeness auto
termination
  by (relation "measure nat") auto

definition odd_digits :: "int \<Rightarrow> int" where
  "odd_digits c = even_digits (c div 10)"

function interleave :: "int \<Rightarrow> int \<Rightarrow> int" where
  "interleave x y = (if x > 0 \<or> y > 0 then x mod 10 + 10 * interleave y (x div 10) else 0)"
  by pat_completeness auto
termination
  by (relation "measure (\<lambda>(x, y). nat x + 2 * nat y)") auto

declare get_isbn_code_pos_loop.simps [simp del] even_digits.simps [simp del] interleave.simps [simp del]

section \<open>The record codec: decoder (isbn\_props\_decoder.py)\<close>

text \<open>
  A byte is an 8-bit word; a byte string (Python \<open>bytes\<close>, a \<open>BytesIO\<close> stream) is a list
  of bytes. The decoder's dataclass \<open>ISBNPropsRecord\<close> is a record; its integers are
  Python integers.
\<close>

type_synonym byte = "8 word"

record ISBNPropsRecord =
  isbn_positions :: "int list"
  holdings_count :: "int option"
  year :: "int option"

text \<open>
  The exceptions the modelled code raises: the decoder's
  \<^verbatim>\<open>ValueError("Incomplete record data")\<close>; \<open>struct.error\<close>, raised by
  \<^verbatim>\<open>struct.pack('>I', position)\<close> and \<open>struct.unpack\<close>; and the \<open>ValueError\<close> of
  \<open>int(c)\<close> for a character that is not a digit.
\<close>

datatype error = IncompleteRecordData | StructError | InvalidLiteral

text \<open>
  The head of the decoder's loop body:
  \<^verbatim>\<open>
  has_count = bool(start_byte & (1 << 7))
  has_year = bool(start_byte & (1 << 6))
  isbn_count = (start_byte & 0x3F)
  record_size = isbn_count * 4  # ISBN positions
  if has_count: record_size += 1
  if has_year: record_size += 1
  \<close>
\<close>

definition has_count_of :: "byte \<Rightarrow> bool" where
  "has_count_of start_byte = (start_byte AND push_bit 7 1 \<noteq> 0)"

definition has_year_of :: "byte \<Rightarrow> bool" where
  "has_year_of start_byte = (start_byte AND push_bit 6 1 \<noteq> 0)"

definition isbn_count_of :: "byte \<Rightarrow> nat" where
  "isbn_count_of start_byte = unat (start_byte AND 0x3F)"

definition record_size :: "byte \<Rightarrow> nat" where
  "record_size start_byte =
     isbn_count_of start_byte * 4
       + (if has_count_of start_byte then 1 else 0)
       + (if has_year_of start_byte then 1 else 0)"

text \<open>\<^verbatim>\<open>int.from_bytes(bs, byteorder='big')\<close>.\<close>

definition from_bytes_big :: "byte list \<Rightarrow> int" where
  "from_bytes_big bs = foldl (\<lambda>acc b. acc * 256 + uint b) 0 bs"

text \<open>
  \<^verbatim>\<open>
  isbn_positions = []
  for _ in range(isbn_count):
      position = int.from_bytes(record_data[pos:pos + 4], byteorder='big')
      isbn_positions.append(position)
      pos += 4
  \<close>
  A slice \<open>record_data[pos:pos + 4]\<close> is \<open>take 4 (drop pos record_data)\<close>; like the Python
  slice it is shorter when the data ends early.
\<close>

fun read_positions :: "nat \<Rightarrow> nat \<Rightarrow> byte list \<Rightarrow> int list" where
  "read_positions 0 pos record_data = []"
| "read_positions (Suc n) pos record_data =
     from_bytes_big (take 4 (drop pos record_data)) # read_positions n (pos + 4) record_data"

text \<open>
  The rest of the loop body, from \<open>pos = 0\<close> to the \<open>yield\<close>: the record decoded from a
  start byte and the \<open>record_data\<close> read after it. The indexing \<open>record_data[pos]\<close> is in
  range wherever \<open>decode_stream\<close> calls this, because \<open>record_data\<close> then has
  \<open>record_size\<close> bytes.
\<close>

definition decode_record :: "byte \<Rightarrow> byte list \<Rightarrow> ISBNPropsRecord" where
  "decode_record start_byte record_data =
     (let has_count = has_count_of start_byte;
          has_year = has_year_of start_byte;
          pos0 = 0;
          holdings = (if has_count then Some (uint (record_data ! pos0)) else None);
          pos1 = (if has_count then pos0 + 1 else pos0);
          yr = (if has_year then Some (2025 - uint (record_data ! pos1)) else None);
          pos2 = (if has_year then pos1 + 1 else pos1)
      in \<lparr>isbn_positions = read_positions (isbn_count_of start_byte) pos2 record_data,
          holdings_count = holdings,
          year = yr\<rparr>)"

text \<open>
  \<^verbatim>\<open>
  def decode_stream(self, stream):
      while True:
          start_byte = stream.read(1)
          if not start_byte:  # End of stream
              break
          ...
          record_data = stream.read(record_size)
          if len(record_data) < record_size:
              raise ValueError("Incomplete record data")
          ...
          yield ISBNPropsRecord(...)
  \<close>
  The generator's outcome is the list of records it yields and the exception that ends
  it, if any. \<open>stream.read(n)\<close> returns the next \<open>n\<close> bytes, or all that are left.
\<close>

fun decode_stream :: "byte list \<Rightarrow> ISBNPropsRecord list \<times> error option" where
  "decode_stream [] = ([], None)"
| "decode_stream (start_byte # rest) =
     (let record_data = take (record_size start_byte) rest in
      if length record_data < record_size start_byte then ([], Some IncompleteRecordData)
      else (case decode_stream (drop (record_size start_byte) rest) of
              (records, outcome) \<Rightarrow> (decode_record start_byte record_data # records, outcome)))"

declare decode_stream.simps(2) [simp del]

text \<open>
  A complete record in a stream is a start byte followed by exactly the bytes it
  announces; a truncated record is a start byte followed by fewer.
\<close>

definition complete_record :: "byte list \<Rightarrow> bool" where
  "complete_record f = (case f of [] \<Rightarrow> False | b # data \<Rightarrow> length data = record_size b)"

definition truncated_record :: "byte list \<Rightarrow> bool" where
  "truncated_record t = (case t of [] \<Rightarrow> False | b # data \<Rightarrow> length data < record_size b)"

section \<open>ISBN strings (processor\_data\_handler.py, isbn\_filter.py)\<close>

text \<open>
  A string is a list of characters, each a code point below 256 (ASCII and Latin-1).
  Among these the regular expression classes \<^verbatim>\<open>[0-9]\<close> and \<^verbatim>\<open>\d\<close> match the ten ASCII
  digits, and \<open>int(c)\<close> accepts the same ten and raises \<open>ValueError\<close> for any other
  character; \<open>str.isdigit\<close> is true for three more, the superscripts \<open>U+00B2\<close>, \<open>U+00B3\<close>
  and \<open>U+00B9\<close>.
\<close>

definition is_digit :: "char \<Rightarrow> bool" where
  "is_digit c = (c \<in> set ''0123456789'')"

definition digit_value :: "char \<Rightarrow> int" where
  "digit_value c = int (of_char c) - 48"

text \<open>\<open>int(c)\<close> for one character.\<close>

definition int_of_char :: "char \<Rightarrow> error + int" where
  "int_of_char c = (if is_digit c then Inr (digit_value c) else Inl InvalidLiteral)"

text \<open>\<open>int(s)\<close> for a string of ASCII digits.\<close>

definition int_of_digits :: "string \<Rightarrow> int" where
  "int_of_digits s = foldl (\<lambda>acc c. 10 * acc + digit_value c) 0 s"

text \<open>\<open>s.isdigit()\<close>: not empty, and \<open>c.isdigit()\<close> for every character.\<close>

definition char_isdigit :: "char \<Rightarrow> bool" where
  "char_isdigit c = (is_digit c \<or> c = CHR 0xB2 \<or> c = CHR 0xB3 \<or> c = CHR 0xB9)"

definition isdigit :: "string \<Rightarrow> bool" where
  "isdigit s = (s \<noteq> [] \<and> list_all char_isdigit s)"

text \<open>\<open>s.startswith(p)\<close>.\<close>

definition startswith :: "string \<Rightarrow> string \<Rightarrow> bool" where
  "startswith s p = (take (length p) s = p)"

text \<open>
  \<^verbatim>\<open>
  def verify_isbn(isbn):
      isbn = isbn.replace('-', '').replace(' ', '')
      if len(isbn) == 10:
          if not isbn[:-1].isdigit() or isbn[-1] not in '0123456789X':
              return False
          sum = 0
          for i in range(9):
              sum += int(isbn[i]) * (10 - i)
          last = 10 if isbn[-1] == 'X' else int(isbn[-1])
          sum += last
          return sum % 11 == 0
      elif len(isbn) == 13:
          if not isbn.isdigit():
              return False
          sum = 0
          for i in range(12):
              sum += int(isbn[i]) * (1 if i % 2 == 0 else 3)
          check_digit = (10 - (sum % 10)) % 10
          return check_digit == int(isbn[-1])
      else:
          return False
  \<close>
  \<open>weighted_sum\<close> is the \<open>for\<close> loop over the indices, with the weight of index \<open>i\<close> as
  a function and the running \<open>sum\<close> as \<open>acc\<close>; it stops at the first \<open>int(isbn[i])\<close> that raises. A string that passes
  the \<open>isdigit\<close> guard with a superscript digit in it makes \<open>verify_isbn\<close> raise
  \<open>ValueError\<close>.
\<close>

fun weighted_sum :: "(nat \<Rightarrow> int) \<Rightarrow> string \<Rightarrow> nat list \<Rightarrow> int \<Rightarrow> error + int" where
  "weighted_sum weight isbn [] acc = Inr acc"
| "weighted_sum weight isbn (i # indices) acc =
     (case int_of_char (isbn ! i) of
        Inl e \<Rightarrow> Inl e
      | Inr d \<Rightarrow> weighted_sum weight isbn indices (acc + d * weight i))"

definition verify_isbn :: "string \<Rightarrow> error + bool" where
  "verify_isbn raw =
     (let isbn = filter (\<lambda>c. c \<noteq> CHR '' '') (filter (\<lambda>c. c \<noteq> CHR ''-'') raw) in
      if length isbn = 10 then
        (if \<not> isdigit (butlast isbn) \<or> last isbn \<notin> set ''0123456789X'' then Inr False
         else
           (case weighted_sum (\<lambda>i. 10 - int i) isbn [0..<9] 0 of
              Inl e \<Rightarrow> Inl e
            | Inr acc \<Rightarrow>
                (case (if last isbn = CHR ''X'' then Inr 10 else int_of_char (last isbn)) of
                   Inl e \<Rightarrow> Inl e
                 | Inr last_value \<Rightarrow> Inr ((acc + last_value) mod 11 = 0))))
      else if length isbn = 13 then
        (if \<not> isdigit isbn then Inr False
         else
           (case weighted_sum (\<lambda>i. if i mod 2 = 0 then 1 else 3) isbn [0..<12] 0 of
              Inl e \<Rightarrow> Inl e
            | Inr acc \<Rightarrow>
                (let check_digit = (10 - (acc mod 10)) mod 10 in
                 case int_of_char (last isbn) of
                   Inl e \<Rightarrow> Inl e
                 | Inr d \<Rightarrow> Inr (check_digit = d))))
      else Inr False)"

text \<open>
  \<^verbatim>\<open>
  def filter_invalid_isbns(isbns):
      isbn10s = {isbn for isbn in isbns if len(isbn) == 10}
      bases = {isbn[:9] for isbn in isbn10s}
      valid_isbn13s = {isbn13 for isbn13 in isbns
          if len(isbn13) == 13 and any(isbn13.startswith('978' + base) for base in bases)}
      remaining_isbn13s = {isbn13 for isbn13 in isbns
          if len(isbn13) == 13 and isbn13 not in valid_isbn13s
          and not any(isbn13.startswith(base) for base in bases)}
      isbns_978 = {isbn13 for isbn13 in remaining_isbn13s if isbn13.startswith('978')}
      bases |= {isbn13[3:12] for isbn13 in isbns_978}
      remaining_isbn13s = {isbn13 for isbn13 in remaining_isbn13s
          if not any(isbn13.startswith(base) for base in bases)}
      isbns_979 = {isbn13 for isbn13 in remaining_isbn13s
          if isbn13 not in isbns_978
          and not any(isbn13.startswith('979' + base) for base in bases)}
      return isbn10s | valid_isbn13s | isbns_978 | isbns_979
  \<close>
  The two assignments to \<open>bases\<close> and to \<open>remaining_isbn13s\<close> are numbered.
\<close>

definition filter_invalid_isbns :: "string set \<Rightarrow> string set" where
  "filter_invalid_isbns isbns =
     (let isbn10s = {isbn \<in> isbns. length isbn = 10};
          bases1 = (\<lambda>isbn. take 9 isbn) ` isbn10s;
          valid_isbn13s = {isbn13 \<in> isbns. length isbn13 = 13 \<and>
                             (\<exists>base \<in> bases1. startswith isbn13 (''978'' @ base))};
          remaining_isbn13s1 = {isbn13 \<in> isbns. length isbn13 = 13 \<and>
                             isbn13 \<notin> valid_isbn13s \<and>
                             \<not> (\<exists>base \<in> bases1. startswith isbn13 base)};
          isbns_978 = {isbn13 \<in> remaining_isbn13s1. startswith isbn13 ''978''};
          bases2 = bases1 \<union> (\<lambda>isbn13. take 9 (drop 3 isbn13)) ` isbns_978;
          remaining_isbn13s2 = {isbn13 \<in> remaining_isbn13s1.
                             \<not> (\<exists>base \<in> bases2. startswith isbn13 base)};
          isbns_979 = {isbn13 \<in> remaining_isbn13s2. isbn13 \<notin> isbns_978 \<and>
                             \<not> (\<exists>base \<in> bases2. startswith isbn13 (''979'' @ base))}
      in isbn10s \<union> valid_isbn13s \<union> isbns_978 \<union> isbns_979)"

text \<open>
  \<^verbatim>\<open>
  def _get_isbn_position(self, isbn: str) -> Optional[int]:
      if not isbn or not isinstance(isbn, str):
          return None
      base = re.sub(r'[^0-9]', '', isbn)[:-1]
      if not base:
          return None
      if len(base) < 12:
          base = '978' + base
      try:
          position = int(base[-12:]) - 978_000_000_000
          if 0 <= position < 2**32:
              return position
      except ValueError:
          pass
      return None
  \<close>
  \<open>base\<close> holds digits only and is not empty where \<open>int\<close> is called, so the
  \<open>ValueError\<close> branch is never taken.
\<close>

definition get_isbn_position :: "string \<Rightarrow> int option" where
  "get_isbn_position isbn =
     (if isbn = [] then None
      else
        (let base1 = butlast (filter is_digit isbn) in
         if base1 = [] then None
         else
           (let base2 = (if length base1 < 12 then ''978'' @ base1 else base1);
                position = int_of_digits (drop (length base2 - 12) base2) - 978000000000
            in if 0 \<le> position \<and> position < 2 ^ 32 then Some position else None)))"

text \<open>
  The sets \<open>filter_invalid_isbns\<close> computes on the way, each as a function of the
  input set, for the proofs.
\<close>

definition isbn10s_of :: "string set \<Rightarrow> string set" where
  "isbn10s_of S = {isbn \<in> S. length isbn = 10}"

definition bases1_of :: "string set \<Rightarrow> string set" where
  "bases1_of S = (\<lambda>isbn. take 9 isbn) ` isbn10s_of S"

definition valid_isbn13s_of :: "string set \<Rightarrow> string set" where
  "valid_isbn13s_of S =
     {isbn13 \<in> S. length isbn13 = 13 \<and> (\<exists>base \<in> bases1_of S. startswith isbn13 (''978'' @ base))}"

definition remaining1_of :: "string set \<Rightarrow> string set" where
  "remaining1_of S =
     {isbn13 \<in> S. length isbn13 = 13 \<and> isbn13 \<notin> valid_isbn13s_of S \<and>
        \<not> (\<exists>base \<in> bases1_of S. startswith isbn13 base)}"

definition isbns_978_of :: "string set \<Rightarrow> string set" where
  "isbns_978_of S = {isbn13 \<in> remaining1_of S. startswith isbn13 ''978''}"

definition bases2_of :: "string set \<Rightarrow> string set" where
  "bases2_of S = bases1_of S \<union> (\<lambda>isbn13. take 9 (drop 3 isbn13)) ` isbns_978_of S"

definition remaining2_of :: "string set \<Rightarrow> string set" where
  "remaining2_of S =
     {isbn13 \<in> remaining1_of S. \<not> (\<exists>base \<in> bases2_of S. startswith isbn13 base)}"

definition isbns_979_of :: "string set \<Rightarrow> string set" where
  "isbns_979_of S =
     {isbn13 \<in> remaining2_of S. isbn13 \<notin> isbns_978_of S \<and>
        \<not> (\<exists>base \<in> bases2_of S. startswith isbn13 (''979'' @ base))}"

section \<open>The year extractor (processor\_most\_likely\_year.py)\<close>

text \<open>
  \<^verbatim>\<open>
  for text in strings:
      matches = re.finditer(r'(?:^|[^\d])(\d{4})(?:[^\d]|$)', str(text))
      for match in matches:
          year = int(match.group(1))
          if 1450 <= year <= current_year:
              years.append(year)
  \<close>
  \<open>re.finditer\<close> scans the text from left to right for matches that do not overlap: at
  each position it tries the pattern, and after a match it goes on at the end of that
  match. The pattern consumes the boundary characters: \<open>^\<close> matches at position 0 only
  and consumes nothing, \<^verbatim>\<open>[^\d]\<close> consumes one character that is not a digit, \<open>$\<close>
  matches at the end of the text.

  \<open>match_here s\<close> is \<^verbatim>\<open>(\d{4})(?:[^\d]|$)\<close> matched at the head of \<open>s\<close>: the group
  and the text after the match. \<open>finditer at_start s\<close> lists the groups of the matches
  found in \<open>s\<close>, where \<open>at_start\<close> says that \<open>s\<close> is the whole text (position 0).
  An element of \<open>strings\<close> is given by its \<open>str(text)\<close>.
\<close>

definition match_here :: "string \<Rightarrow> (string \<times> string) option" where
  "match_here s =
     (if 4 \<le> length s \<and> list_all is_digit (take 4 s) then
        (if length s = 4 then Some (take 4 s, [])
         else if \<not> is_digit (s ! 4) then Some (take 4 s, drop 5 s)
         else None)
      else None)"

function finditer :: "bool \<Rightarrow> string \<Rightarrow> string list" where
  "finditer at_start s =
     (if s = [] then []
      else
        (case (if at_start then match_here s else None) of
           Some (g, rest) \<Rightarrow> g # finditer False rest
         | None \<Rightarrow>
             (case (if \<not> is_digit (hd s) then match_here (tl s) else None) of
                Some (g, rest) \<Rightarrow> g # finditer False rest
              | None \<Rightarrow> finditer False (tl s))))"
  by pat_completeness auto
termination
proof (relation "measure (\<lambda>(at_start, s). length s)")
  show "wf (measure (\<lambda>(at_start, s). length s))" by simp
next
  fix at_start :: bool and s :: string and x2 :: "string \<times> string" and g rest :: string
  assume "(if at_start then match_here s else None) = Some x2" and "(g, rest) = x2"
  then have "match_here s = Some (g, rest)" by (simp split: if_splits)
  then have "length rest < length s" by (auto simp: match_here_def split: if_splits)
  then show "((False, rest), at_start, s) \<in> measure (\<lambda>(at_start, s). length s)" by simp
next
  fix at_start :: bool and s :: string and x2 :: "string \<times> string" and g rest :: string
  assume "s \<noteq> []" and "(if \<not> is_digit (hd s) then match_here (tl s) else None) = Some x2"
    and "(g, rest) = x2"
  then have "match_here (tl s) = Some (g, rest)" by (simp split: if_splits)
  then have "length rest < length (tl s)" by (auto simp: match_here_def split: if_splits)
  with \<open>s \<noteq> []\<close>
  show "((False, rest), at_start, s) \<in> measure (\<lambda>(at_start, s). length s)" by simp
next
  fix at_start :: bool and s :: string
  assume "s \<noteq> []"
  then show "((False, tl s), at_start, s) \<in> measure (\<lambda>(at_start, s). length s)" by simp
qed

declare finditer.simps [simp del]

text \<open>The list \<open>years\<close> after the first loop: the candidates the frequencies are counted over.\<close>

definition year_candidates :: "string list \<Rightarrow> int list" where
  "year_candidates strings =
     concat (map (\<lambda>text. filter (\<lambda>y. 1450 \<le> y \<and> y \<le> 2025)
                           (map int_of_digits (finditer True text))) strings)"

text \<open>
  \<^verbatim>\<open>
  if not years:
      return None
  counts = Counter(years)
  max_count = max(counts.values())
  candidates = [year for year, count in counts.items() if count == max_count]
  if len(candidates) == 1:
      return candidates[0]
  candidates.sort()
  for i in range(len(candidates) - 1):
      if candidates[i+1] - candidates[i] <= 5:
          return candidates[i]
  return candidates[-1]
  \<close>
  A \<open>Counter\<close> lists its keys in the order of their first occurrence.
\<close>

definition counter :: "int list \<Rightarrow> (int \<times> nat) list" where
  "counter years = map (\<lambda>y. (y, count_list years y)) (rev (remdups (rev years)))"

fun first_close_pair :: "int list \<Rightarrow> int option" where
  "first_close_pair (a # b # rest) = (if b - a \<le> 5 then Some a else first_close_pair (b # rest))"
| "first_close_pair _ = None"

definition extract_most_likely_year :: "string list \<Rightarrow> int option" where
  "extract_most_likely_year strings =
     (let years = year_candidates strings in
      if years = [] then None
      else
        (let counts = counter years;
             max_count = Max (set (map snd counts));
             candidates = map fst (filter (\<lambda>(y, n). n = max_count) counts)
         in if length candidates = 1 then Some (hd candidates)
            else
              (let sorted_candidates = sort candidates in
               case first_close_pair sorted_candidates of
                 Some y \<Rightarrow> Some y
               | None \<Rightarrow> Some (last sorted_candidates))))"

text \<open>
  The candidates in the spec's words: in each string, every run of four digits that is
  bounded on each side by a character that is not a digit or by an end of the string,
  kept when its value is between 1450 and 2025. It is compared with \<open>year_candidates\<close>.
\<close>

definition bounded_runs :: "string \<Rightarrow> string list" where
  "bounded_runs s =
     map (\<lambda>i. take 4 (drop i s))
       (filter (\<lambda>i. i + 4 \<le> length s \<and> list_all is_digit (take 4 (drop i s)) \<and>
                     (i = 0 \<or> \<not> is_digit (s ! (i - 1))) \<and>
                     (i + 4 = length s \<or> \<not> is_digit (s ! (i + 4))))
          [0 ..< length s])"

definition spec_year_candidates :: "string list \<Rightarrow> int list" where
  "spec_year_candidates strings =
     concat (map (\<lambda>text. filter (\<lambda>y. 1450 \<le> y \<and> y \<le> 2025)
                           (map int_of_digits (bounded_runs text))) strings)"

section \<open>The aggregator and its encoder (processor\_data\_handler.py, \<open>DataHandler\<close>)\<close>

subsection \<open>Flush: from ISBN strings to positions\<close>

text \<open>
  The first half of \<open>_create_bytes\<close>:
  \<^verbatim>\<open>
  isbns = filter_invalid_isbns({isbn for isbn in self.isbns if verify_isbn(isbn)})
  isbn_positions = set()
  for isbn in isbns:
      pos = self._get_isbn_position(isbn)
      if pos is not None:
          if pos >= 1_000_000_000 and \
              not (pos >= 1_100_000_000 and pos < 1_140_000_000) and \
              not (pos >= 1_800_000_000 and pos < 1_900_000_000):
              # sometimes they get prefixed with 979 when they're actually under 978
              # assume that's the case and fix it
              pos -= 1_000_000_000
          isbn_positions.add(pos)
  \<close>
  \<open>surviving_isbns\<close> is the set \<open>isbns\<close> the loop runs over, \<open>fix_prefix\<close> what the loop
  body does to a position, \<open>flush_positions\<close> the set \<open>isbn_positions\<close> after the loop.
  The set comprehension calls \<open>verify_isbn\<close> on every string of \<open>self.isbns\<close>, so it
  raises \<open>ValueError\<close> when one of the calls does.
\<close>

definition surviving_isbns :: "string set \<Rightarrow> error + string set" where
  "surviving_isbns self_isbns =
     (if \<exists>isbn \<in> self_isbns. isl (verify_isbn isbn) then Inl InvalidLiteral
      else Inr (filter_invalid_isbns {isbn \<in> self_isbns. verify_isbn isbn = Inr True}))"

definition fix_prefix :: "int \<Rightarrow> int" where
  "fix_prefix pos =
     (if pos \<ge> 1000000000 \<and>
         \<not> (pos \<ge> 1100000000 \<and> pos < 1140000000) \<and>
         \<not> (pos \<ge> 1800000000 \<and> pos < 1900000000)
      then pos - 1000000000 else pos)"

definition flush_positions :: "string set \<Rightarrow> error + int set" where
  "flush_positions self_isbns =
     (case surviving_isbns self_isbns of
        Inl e \<Rightarrow> Inl e
      | Inr survivors \<Rightarrow>
          Inr (\<Union>isbn \<in> survivors.
                 case get_isbn_position isbn of None \<Rightarrow> {} | Some pos \<Rightarrow> {fix_prefix pos}))"

subsection \<open>Flush: from positions to bytes\<close>

text \<open>
  \<^verbatim>\<open>struct.pack('>I', position)\<close>: four bytes, most significant first; \<open>struct.error\<close>
  when the position is not an unsigned 32-bit value.
\<close>

definition pack_be32 :: "int \<Rightarrow> error + byte list" where
  "pack_be32 position =
     (if 0 \<le> position \<and> position < 2 ^ 32
      then Inr [word_of_int (position div 2 ^ 24), word_of_int (position div 2 ^ 16),
                word_of_int (position div 2 ^ 8), word_of_int position]
      else Inl StructError)"

text \<open>
  \<^verbatim>\<open>
  for position in chunk:
      chunk_bytes.extend(struct.pack('>I', position))
  \<close>
\<close>

fun pack_positions :: "int list \<Rightarrow> error + byte list" where
  "pack_positions [] = Inr []"
| "pack_positions (position # chunk) =
     (case pack_be32 position of
        Inl e \<Rightarrow> Inl e
      | Inr bs \<Rightarrow> (case pack_positions chunk of Inl e \<Rightarrow> Inl e | Inr rest \<Rightarrow> Inr (bs @ rest)))"

text \<open>
  \<^verbatim>\<open>
  start_byte = ((1 if has_count else 0) << 7) | \
              ((1 if has_year else 0) << 6) | \
              (isbn_count & 0x0F)
  chunk_bytes = bytearray([start_byte])
  if has_count:
      holdings_byte = min(255, max(0, self.holdings_count))
      chunk_bytes.append(holdings_byte)
  if has_year:
      year_byte = min(255, max(0, 2025 - self.year))
      chunk_bytes.append(year_byte)
  \<close>
  The three values are between 0 and 255, so storing them in a \<open>bytearray\<close> never fails.
\<close>

definition start_byte_of :: "bool \<Rightarrow> bool \<Rightarrow> nat \<Rightarrow> int" where
  "start_byte_of has_count has_year isbn_count =
     push_bit 7 (if has_count then 1 else 0) OR
     push_bit 6 (if has_year then 1 else 0) OR
     (int isbn_count AND 0x0F)"

definition encode_chunk :: "int option \<Rightarrow> int option \<Rightarrow> int list \<Rightarrow> error + byte list" where
  "encode_chunk self_holdings_count self_year chunk =
     (let has_count = (self_holdings_count \<noteq> None);
          has_year = (self_year \<noteq> None);
          isbn_count = length chunk;
          header =
            [word_of_int (start_byte_of has_count has_year isbn_count)] @
            (case self_holdings_count of
               None \<Rightarrow> [] | Some h \<Rightarrow> [word_of_int (min 255 (max 0 h))]) @
            (case self_year of
               None \<Rightarrow> [] | Some y \<Rightarrow> [word_of_int (min 255 (max 0 (2025 - y)))])
      in case pack_positions chunk of
           Inl e \<Rightarrow> Inl e
         | Inr position_bytes \<Rightarrow> Inr (header @ position_bytes))"

text \<open>
  \<^verbatim>\<open>
  for i in range(0, len(isbn_positions), self.MAX_CHUNK_SIZE):
      chunk = isbn_positions[i:i + self.MAX_CHUNK_SIZE]
  \<close>
  \<open>range(0, n, 15)\<close> is \<open>0, 15, 30, \<dots>\<close> below \<open>n\<close>.
\<close>

definition MAX_CHUNK_SIZE :: nat where
  "MAX_CHUNK_SIZE = 15"

definition chunks_of :: "int list \<Rightarrow> int list list" where
  "chunks_of sorted_positions =
     map (\<lambda>k. take MAX_CHUNK_SIZE (drop (k * MAX_CHUNK_SIZE) sorted_positions))
       [0 ..< (length sorted_positions + MAX_CHUNK_SIZE - 1) div MAX_CHUNK_SIZE]"

fun encode_chunks :: "int option \<Rightarrow> int option \<Rightarrow> int list list \<Rightarrow> error + byte list list" where
  "encode_chunks h y [] = Inr []"
| "encode_chunks h y (chunk # chunks) =
     (case encode_chunk h y chunk of
        Inl e \<Rightarrow> Inl e
      | Inr bs \<Rightarrow> (case encode_chunks h y chunks of Inl e \<Rightarrow> Inl e | Inr rest \<Rightarrow> Inr (bs # rest)))"

text \<open>
  The second half of \<open>_create_bytes\<close>, from \<open>isbn_positions = sorted(isbn_positions)\<close>
  to the \<open>return\<close>: the encoder of a set of positions with optional holdings and year
  (\<open>sorted_positions\<close> is the sorted list the source keeps in \<open>isbn_positions\<close>).
  \<open>Inr None\<close> is the return value \<open>None\<close>.
  \<^verbatim>\<open>
  isbn_positions = sorted(isbn_positions)
  has_count = self.holdings_count is not None
  has_year = self.year is not None
  if not (len(isbn_positions) > 0 and (has_count or has_year)):
      return None
  all_chunks = []
  for i in range(0, len(isbn_positions), self.MAX_CHUNK_SIZE):
      ...
      all_chunks.append(bytes(chunk_bytes))
  return b''.join(all_chunks) if all_chunks else None
  \<close>
\<close>

definition encode_positions :: "int set \<Rightarrow> int option \<Rightarrow> int option \<Rightarrow> error + byte list option" where
  "encode_positions positions self_holdings_count self_year =
     (let sorted_positions = sorted_list_of_set positions;
          has_count = (self_holdings_count \<noteq> None);
          has_year = (self_year \<noteq> None)
      in if \<not> (length sorted_positions > 0 \<and> (has_count \<or> has_year)) then Inr None
         else
           (case encode_chunks self_holdings_count self_year (chunks_of sorted_positions) of
              Inl e \<Rightarrow> Inl e
            | Inr all_chunks \<Rightarrow> Inr (if all_chunks \<noteq> [] then Some (concat all_chunks) else None)))"

subsection \<open>The state machine\<close>

text \<open>
  One input line, after \<open>json.loads\<close>: the fields the handler reads, each absent
  (\<open>None\<close>) or present with a value of the type the corpus gives it: strings for the
  ISBNs, an integer for the holdings, and for a date field the string \<open>str\<close> makes of
  its value. The flush trigger \<open>{}\<close> is the line with every field absent.
\<close>

record line =
  oclc_number :: "string option"
  isbns :: "string list option"
  isbn13 :: "string option"
  totalHoldingCount :: "int option"
  total_holding_count :: "int option"
  machineReadableDate :: "string option"
  publicationDate :: "string option"
  date :: "string option"

text \<open>The attributes of a \<open>DataHandler\<close>; \<open>self.x\<close> is the field \<open>self_x\<close>.\<close>

record DataHandler =
  self_current_id :: "string option"
  self_isbns :: "string set"
  self_holdings_count :: "int option"
  self_year :: "int option"
  self_total_results :: int
  self_records :: "line list"

definition init :: DataHandler where
  "init = \<lparr>self_current_id = None, self_isbns = {}, self_holdings_count = None,
           self_year = None, self_total_results = 0, self_records = []\<rparr>"

definition reset_state :: "DataHandler \<Rightarrow> DataHandler" where
  "reset_state self = self\<lparr>self_current_id := None, self_isbns := {},
                           self_holdings_count := None, self_year := None,
                           self_records := []\<rparr>"

text \<open>
  \<^verbatim>\<open>
  def _create_bytes(self) -> Optional[bytes]:
      if not self.isbns:
          return None
      ...
  \<close>
\<close>

definition create_bytes :: "DataHandler \<Rightarrow> error + byte list option" where
  "create_bytes self =
     (if self_isbns self = {} then Inr None
      else
        (case flush_positions (self_isbns self) of
           Inl e \<Rightarrow> Inl e
         | Inr positions \<Rightarrow>
             encode_positions positions (self_holdings_count self) (self_year self)))"

text \<open>
  \<^verbatim>\<open>
  def _merge_record_data(self, data: dict) -> None:
      self.records.append(data.get('metadata', {}))
      record = data.get('metadata', {}).get('record', {})
      isbns = set()
      if 'isbns' in record and record['isbns']:
          isbns.update(record['isbns'])
      if 'isbn13' in record and record['isbn13']:
          isbns.add(record['isbn13'])
      self.isbns.update(isbns)
      holdings_fields = ['totalHoldingCount', 'total_holding_count']
      for field in holdings_fields:
          if field in record:
              if self.holdings_count is None:
                  self.holdings_count = record[field]
              else:
                  self.holdings_count = max(self.holdings_count, record[field])
      year_fields = ['machineReadableDate', 'publicationDate', 'date']
      new_year = extract_most_likely_year(
          [record.get(field) for field in year_fields if field in record])
      if new_year:
          if self.year is None:
              self.year = new_year
          else:
              self.year = min(self.year, new_year)
  \<close>
\<close>

definition line_isbns :: "line \<Rightarrow> string set" where
  "line_isbns data =
     (case isbns data of None \<Rightarrow> {} | Some l \<Rightarrow> if l \<noteq> [] then set l else {}) \<union>
     (case isbn13 data of None \<Rightarrow> {} | Some s \<Rightarrow> if s \<noteq> [] then {s} else {})"

definition update_holdings :: "int option \<Rightarrow> int option \<Rightarrow> int option" where
  "update_holdings holdings field =
     (case field of
        None \<Rightarrow> holdings
      | Some v \<Rightarrow> (case holdings of None \<Rightarrow> Some v | Some h \<Rightarrow> Some (max h v)))"

definition line_year :: "line \<Rightarrow> int option" where
  "line_year data =
     extract_most_likely_year
       (concat (map (\<lambda>field. case field of None \<Rightarrow> [] | Some s \<Rightarrow> [s])
          [machineReadableDate data, publicationDate data, date data]))"

definition update_year :: "int option \<Rightarrow> int option \<Rightarrow> int option" where
  "update_year yr new_year =
     (case new_year of
        None \<Rightarrow> yr
      | Some n \<Rightarrow>
          if n \<noteq> 0 then (case yr of None \<Rightarrow> Some n | Some y \<Rightarrow> Some (min y n)) else yr)"

definition merge_record_data :: "DataHandler \<Rightarrow> line \<Rightarrow> DataHandler" where
  "merge_record_data self data =
     self\<lparr>self_records := self_records self @ [data],
          self_isbns := self_isbns self \<union> line_isbns data,
          self_holdings_count :=
            update_holdings (update_holdings (self_holdings_count self) (totalHoldingCount data))
              (total_holding_count data),
          self_year := update_year (self_year self) (line_year data)\<rparr>"

text \<open>
  \<^verbatim>\<open>
  def process(self, data: dict) -> Optional[bytes]:
      oclc_id = data.get('metadata', {}).get('oclc_number')
      if oclc_id is None:  # End of batch
          if self.current_id is not None:
              result = self._create_bytes()
              self._reset_state()
              self.total_results += 1
              return result
          return None
      if self.current_id is not None and oclc_id != self.current_id:
          result = self._create_bytes()
          self._reset_state()
          self.current_id = oclc_id
          self.total_results += 1
          self._merge_record_data(data)
          return result
      if self.current_id is None:
          self.current_id = oclc_id
      self._merge_record_data(data)
      return None
  \<close>
  \<open>process\<close> returns the handler after the call and what the call returns or raises; an
  exception of \<open>_create_bytes\<close> leaves the handler as it was.
\<close>

definition process :: "DataHandler \<Rightarrow> line \<Rightarrow> DataHandler \<times> (error + byte list option)" where
  "process self data =
     (case oclc_number data of
        None \<Rightarrow>
          (if self_current_id self \<noteq> None then
             (case create_bytes self of
                Inl e \<Rightarrow> (self, Inl e)
              | Inr result \<Rightarrow>
                  ((reset_state self)\<lparr>self_total_results := self_total_results self + 1\<rparr>,
                   Inr result))
           else (self, Inr None))
      | Some oclc_id \<Rightarrow>
          (if self_current_id self \<noteq> None \<and> Some oclc_id \<noteq> self_current_id self then
             (case create_bytes self of
                Inl e \<Rightarrow> (self, Inl e)
              | Inr result \<Rightarrow>
                  (merge_record_data
                     ((reset_state self)\<lparr>self_current_id := Some oclc_id,
                        self_total_results := self_total_results self + 1\<rparr>) data,
                   Inr result))
           else
             (merge_record_data
                (if self_current_id self = None then self\<lparr>self_current_id := Some oclc_id\<rparr>
                 else self) data,
              Inr None)))"

text \<open>The empty line \<open>{}\<close>, which a worker passes to force the final flush.\<close>

definition empty_line :: line where
  "empty_line = \<lparr>oclc_number = None, isbns = None, isbn13 = None, totalHoldingCount = None,
                 total_holding_count = None, machineReadableDate = None,
                 publicationDate = None, date = None\<rparr>"

text \<open>
  Feeding a list of lines to a handler, one \<open>process\<close> call each, and then the empty
  line: the values the calls return, in order (the run stops at an exception).
\<close>

fun feed :: "DataHandler \<Rightarrow> line list \<Rightarrow> DataHandler \<times> (error + byte list option) list" where
  "feed self [] = (self, [])"
| "feed self (data # rest) =
     (case process self data of
        (self', Inl e) \<Rightarrow> (self', [Inl e])
      | (self', Inr result) \<Rightarrow> (case feed self' rest of (self'', results) \<Rightarrow> (self'', Inr result # results)))"

definition feed_and_flush :: "line list \<Rightarrow> (error + byte list option) list" where
  "feed_and_flush lines = snd (feed init (lines @ [empty_line]))"

text \<open>
  The positions that are rewritten, first in the spec's own words: positions in
  \<open>[10^9, 1.1\<cdot>10^9)\<close>, \<open>[1.14\<cdot>10^9, 1.8\<cdot>10^9)\<close> and \<open>[1.9\<cdot>10^9, 2\<cdot>10^9)\<close> are mis-prefixed.
  Then as the source's guard has them among the positions below \<open>2^32\<close>: the third
  interval has no upper end. Both are compared with \<open>fix_prefix\<close>, which is the source's
  condition.
\<close>

definition spec_mis_prefixed :: "int \<Rightarrow> bool" where
  "spec_mis_prefixed p =
     ((1000000000 \<le> p \<and> p < 1100000000) \<or>
      (1140000000 \<le> p \<and> p < 1800000000) \<or>
      (1900000000 \<le> p \<and> p < 2000000000))"

definition mis_prefixed :: "int \<Rightarrow> bool" where
  "mis_prefixed p =
     ((1000000000 \<le> p \<and> p < 1100000000) \<or>
      (1140000000 \<le> p \<and> p < 1800000000) \<or>
      (1900000000 \<le> p \<and> p < 2 ^ 32))"

text \<open>The four bytes \<open>pack_be32\<close> returns for a position in range, named for the proofs.\<close>

definition be32 :: "int \<Rightarrow> byte list" where
  "be32 p = [word_of_int (p div 2 ^ 24), word_of_int (p div 2 ^ 16),
             word_of_int (p div 2 ^ 8), word_of_int p]"

text \<open>
  What a group of lines merges to, in the spec's words: the union of the lines' ISBN
  strings, the maximum of the holdings fields the lines carry, the minimum of the years
  extracted from the lines. They are compared with the state \<open>process\<close> builds.
\<close>

definition merged_isbns :: "line list \<Rightarrow> string set" where
  "merged_isbns lines = (\<Union>l \<in> set lines. line_isbns l)"

definition holdings_values :: "line list \<Rightarrow> int set" where
  "holdings_values lines =
     (\<Union>l \<in> set lines. set_option (totalHoldingCount l) \<union> set_option (total_holding_count l))"

definition merged_holdings :: "line list \<Rightarrow> int option" where
  "merged_holdings lines =
     (if holdings_values lines = {} then None else Some (Max (holdings_values lines)))"

definition year_values :: "line list \<Rightarrow> int set" where
  "year_values lines = (\<Union>l \<in> set lines. {n \<in> set_option (line_year l). n \<noteq> 0})"

definition merged_year :: "line list \<Rightarrow> int option" where
  "merged_year lines =
     (if year_values lines = {} then None else Some (Min (year_values lines)))"

text \<open>
  The flush of the merged group: nothing when the group has no ISBN string, the
  \<open>ValueError\<close> when checking one of the strings raises it, and otherwise the encoding
  of the flushed positions with the merged holdings and year.
\<close>

definition merged_bytes :: "line list \<Rightarrow> error + byte list option" where
  "merged_bytes lines =
     (if merged_isbns lines = {} then Inr None
      else
        (case flush_positions (merged_isbns lines) of
           Inl e \<Rightarrow> Inl e
         | Inr positions \<Rightarrow>
             encode_positions positions (merged_holdings lines) (merged_year lines)))"

section \<open>The packed-ISBN-runs decoder (common.py, \<open>ISBNsBinaryProcessor.process\<close>)\<close>



text \<open>
  The generator's variables: \<open>position\<close>, \<open>offset\<close>, the current \<open>block\<close>, and the pairs
  it has yielded so far. \<open>create_block\<close> and \<open>add_to_block\<close> are the two operations a
  subclass supplies; \<open>create_block\<close> returns a fresh block on every call, so a block is
  a value here and \<open>add_to_block\<close> returns the block after the call.
\<close>

record 'b decoder_state =
  position :: int
  offset :: int
  block :: 'b
  yielded :: "(int \<times> 'b) list"











section \<open>ISBN string to canvas pixel (common.py, \<open>get_pos\<close>)\<close>

text \<open>
  \<^verbatim>\<open>
  WIDTH = 50_000
  HEIGHT = 40_000

  def get_pos(isbn: str) -> tuple[int, int]:
      x = 0
      y = 0
      n = 4
      is_row = True
      for digit in map(int, isbn):
          if is_row:
              y += digit * 10 ** n
          else:
              x += digit * 10 ** n
              # adjust from 10x2 to 5x4
              if n == 4:
                  y = 2 * y + x // 50_000
                  x %= 50_000
              n -= 1
          is_row = not is_row
      return x, y
  \<close>
  \<open>n\<close> starts at 4 and drops by one with every second digit, so from the eleventh
  digit on it is negative. For a negative \<open>n\<close> Python's \<open>10 ** n\<close> is a \<open>float\<close>, and from
  there on \<open>x\<close> and \<open>y\<close> are floats too: every product and every sum is rounded to a
  binary64 number. The model keeps the two kinds of Python number apart and rounds where
  Python rounds.
\<close>

subsection \<open>Binary64 rounding\<close>

text \<open>
  A finite \<open>float\<close> is modelled by the rational number it denotes. \<open>round_double\<close> is
  the rounding of IEEE 754 binary64 arithmetic, to nearest with ties to even: a number
  \<open>x\<close> with \<open>2 ^ e \<le> \<bar>x\<bar> < 2 ^ (e + 1)\<close> is rounded to a multiple of \<open>2 ^ (e - 52)\<close>
  (53 significant bits), and to a multiple of \<open>2 ^ -1074\<close> in the subnormal range. The
  model has no infinities, no NaN and no negative zero; \<open>get_pos\<close> adds at most nine
  times each power of ten to its coordinates, far below the overflow threshold
  \<open>2 ^ 1024\<close>.
\<close>

definition round_half_even :: "rat \<Rightarrow> int" where
  "round_half_even r =
     (let f = \<lfloor>r\<rfloor>; d = r - of_int f in
      if d < 1 / 2 then f
      else if 1 / 2 < d then f + 1
      else if even f then f
      else f + 1)"

text \<open>The binary exponent \<open>\<lfloor>log\<^sub>2 x\<rfloor>\<close> of a positive rational, from the bit lengths of
  its numerator and denominator.\<close>

definition expo :: "rat \<Rightarrow> int" where
  "expo x =
     (let k = bitlen (fst (quotient_of x)) - bitlen (snd (quotient_of x)) in
      if 2 powi k \<le> x then k else k - 1)"

definition round_double :: "rat \<Rightarrow> rat" where
  "round_double x =
     (if x = 0 then 0
      else
        (let g = max (expo \<bar>x\<bar> - 52) (- 1074) in
         of_int (round_half_even (x / 2 powi g)) * 2 powi g))"

subsection \<open>Python numbers\<close>

datatype pynum = PyInt int | PyFloat rat

text \<open>The conversion of an operand to \<open>float\<close> in mixed arithmetic.\<close>

fun to_float :: "pynum \<Rightarrow> rat" where
  "to_float (PyInt v) = round_double (of_int v)"
| "to_float (PyFloat f) = f"

fun py_add :: "pynum \<Rightarrow> pynum \<Rightarrow> pynum" where
  "py_add (PyInt a) (PyInt b) = PyInt (a + b)"
| "py_add a b = PyFloat (round_double (to_float a + to_float b))"

fun py_mul :: "pynum \<Rightarrow> pynum \<Rightarrow> pynum" where
  "py_mul (PyInt a) (PyInt b) = PyInt (a * b)"
| "py_mul a b = PyFloat (round_double (to_float a * to_float b))"

text \<open>
  \<open>10 ** n\<close>: an \<open>int\<close> for \<open>n \<ge> 0\<close>, and for \<open>n < 0\<close> the \<open>float\<close> nearest to the
  power of ten (\<open>10 ** -1 == 0.1\<close>, \<open>10 ** -2 == 0.01\<close>).
\<close>

definition py_pow10 :: "int \<Rightarrow> pynum" where
  "py_pow10 n = (if 0 \<le> n then PyInt (10 ^ nat n) else PyFloat (round_double (10 powi n)))"

text \<open>
  \<open>x // w\<close> and \<open>x % w\<close> for a non-zero \<open>int\<close> \<open>w\<close>. On integers they are the floor
  division and its remainder. On floats they follow \<open>float_divmod\<close> of CPython:
  \<open>fmod\<close> is exact and has the sign of \<open>x\<close>; the quotient is computed from it by a
  rounded subtraction and a rounded division; the remainder is given the sign of \<open>w\<close>;
  the quotient is snapped to the nearest integer. In \<open>get_pos\<close> the two operations run
  when \<open>n\<close> is 4, which is at the second character, where \<open>x\<close> is an \<open>int\<close>.
\<close>

definition fmod :: "rat \<Rightarrow> rat \<Rightarrow> rat" where
  "fmod vx wx =
     (let q = vx / wx in vx - wx * of_int (if 0 \<le> q then \<lfloor>q\<rfloor> else \<lceil>q\<rceil>))"

definition float_divmod :: "rat \<Rightarrow> rat \<Rightarrow> rat \<times> rat" where
  "float_divmod vx wx =
     (let m0 = fmod vx wx;
          div0 = round_double (round_double (vx - m0) / wx);
          adjust = (m0 \<noteq> 0 \<and> (wx < 0) \<noteq> (m0 < 0));
          m = (if adjust then round_double (m0 + wx) else m0);
          dv = (if adjust then round_double (div0 - 1) else div0);
          fl = of_int \<lfloor>dv\<rfloor>;
          floordiv = (if 1 / 2 < round_double (dv - fl) then round_double (fl + 1) else fl)
      in (floordiv, m))"

fun py_floordiv :: "pynum \<Rightarrow> int \<Rightarrow> pynum" where
  "py_floordiv (PyInt a) w = PyInt (a div w)"
| "py_floordiv (PyFloat f) w = PyFloat (fst (float_divmod f (round_double (of_int w))))"

fun py_mod :: "pynum \<Rightarrow> int \<Rightarrow> pynum" where
  "py_mod (PyInt a) w = PyInt (a mod w)"
| "py_mod (PyFloat f) w = PyFloat (snd (float_divmod f (round_double (of_int w))))"

text \<open>The rational value of a Python number, for the comparisons with the canvas size.\<close>

fun py_val :: "pynum \<Rightarrow> rat" where
  "py_val (PyInt v) = of_int v"
| "py_val (PyFloat f) = f"

subsection \<open>The loop\<close>

definition WIDTH :: int where
  "WIDTH = 50000"

definition HEIGHT :: int where
  "HEIGHT = 40000"

text \<open>
  \<open>map(int, isbn)\<close> is lazy: \<open>int\<close> is applied to a character when the loop reaches it,
  and raises \<open>ValueError\<close> there if the character is not a decimal digit.
\<close>

fun get_pos_loop :: "pynum \<Rightarrow> pynum \<Rightarrow> int \<Rightarrow> bool \<Rightarrow> string \<Rightarrow> error + pynum \<times> pynum" where
  "get_pos_loop x y n is_row [] = Inr (x, y)"
| "get_pos_loop x y n is_row (c # rest) =
     (case int_of_char c of
        Inl e \<Rightarrow> Inl e
      | Inr digit \<Rightarrow>
          if is_row
          then get_pos_loop x (py_add y (py_mul (PyInt digit) (py_pow10 n))) n False rest
          else
            (let x1 = py_add x (py_mul (PyInt digit) (py_pow10 n)) in
             if n = 4
             then get_pos_loop (py_mod x1 50000)
                    (py_add (py_mul (PyInt 2) y) (py_floordiv x1 50000)) (n - 1) True rest
             else get_pos_loop x1 y (n - 1) True rest))"

definition get_pos :: "string \<Rightarrow> error + pynum \<times> pynum" where
  "get_pos isbn = get_pos_loop (PyInt 0) (PyInt 0) 4 True isbn"

section \<open>The result writer of the parallel driver (processor\_main.py, \<open>write_results\<close>)\<close>

text \<open>
  \<^verbatim>\<open>
  def write_results(queue: Queue, output_path: str):
      f = None
      try:
          f = open(output_path, 'wb')
          while True:
              try:
                  result = queue.get()
                  if result is None:
                      break
                  f.write(result)
                  f.flush()
              except EOFError:
                  break
              except KeyboardInterrupt:
                  if f is not None:
                      f.flush()
                  break
      finally:
          if f is not None:
              f.flush()
              f.close()
  \<close>
  The writer is the only thread that takes from the result queue and the only one that
  writes the file, so what it does is a function of what \<open>queue.get()\<close> gives it, call
  by call: a buffer a worker has put, the sentinel \<open>None\<close> the driver puts after the
  workers have ended, or an exception. \<open>write_results\<close> is the content of the file when
  the loop ends.
\<close>

datatype queue_get = Result "byte list" | Sentinel | RaisesEOFError | RaisesKeyboardInterrupt

fun write_results :: "queue_get list \<Rightarrow> byte list" where
  "write_results [] = []"
| "write_results (Result result # later) = result @ write_results later"
| "write_results (Sentinel # later) = []"
| "write_results (RaisesEOFError # later) = []"
| "write_results (RaisesKeyboardInterrupt # later) = []"

text \<open>
  The workers run as separate processes. Worker \<open>w\<close> puts its buffers on the queue in
  its own order (\<open>Worker.run\<close>: \<open>self.queue.put(self.bytes_buffer)\<close> whenever the buffer
  is over 4096 bytes, and once more at the end); the concatenation of its buffers is
  its encoded output. A buffer carries no worker id. The queue delivers the buffers of
  all the workers in some order that keeps each worker's own order: an interleaving.
  \<open>interleaving outs arrival\<close> says that \<open>arrival\<close> is such an order for the workers'
  buffer lists \<open>outs\<close>, listed by worker id.
\<close>

inductive interleaving :: "'a list list \<Rightarrow> 'a list \<Rightarrow> bool" where
  finished: "\<forall>q \<in> set outs. q = [] \<Longrightarrow> interleaving outs []"
| next_from: "w < length outs \<Longrightarrow> outs ! w = b # q \<Longrightarrow> interleaving (outs[w := q]) arrival \<Longrightarrow>
     interleaving outs (b # arrival)"

text \<open>A complete run: the buffers in their order of arrival, then the driver's sentinel.\<close>

definition run_queue :: "byte list list \<Rightarrow> queue_get list" where
  "run_queue arrival = map Result arrival @ [Sentinel]"

chapter \<open>Properties\<close>

section \<open>The pixel mapping is a bijection\<close>

lemma even_digits_nonpos: "c \<le> 0 \<Longrightarrow> even_digits c = 0"
  by (subst even_digits.simps) simp

lemma even_digits_nonneg: "0 \<le> even_digits c"
  by (induction c rule: even_digits.induct) (subst even_digits.simps, simp)

lemma odd_digits_nonneg: "0 \<le> odd_digits c"
  by (simp add: odd_digits_def even_digits_nonneg)

lemma even_digits_step:
  assumes "0 \<le> c"
  shows "even_digits c = c mod 10 + 10 * odd_digits (c div 10)"
proof -
  have "c div (10 * 10) = c div 10 div 10" by (rule zdiv_zmult2_eq) simp
  then have "c div 10 div 10 = c div 100" by simp
  with assms show ?thesis
    by (subst even_digits.simps) (auto simp add: odd_digits_def even_digits_nonpos)
qed

lemma odd_digits_step: "odd_digits c = even_digits (c div 10)"
  by (simp add: odd_digits_def)

lemma loop_digits:
  "0 \<le> code \<Longrightarrow> get_isbn_code_pos_loop code i x y =
     (if i mod 2 = 0
      then (x + 10 ^ (i div 2) * even_digits code, y + 10 ^ (i div 2) * odd_digits code)
      else (x + 10 ^ (i div 2 + 1) * odd_digits code, y + 10 ^ (i div 2) * even_digits code))"
proof (induction code i x y rule: get_isbn_code_pos_loop.induct)
  case (1 code i x y)
  show ?case
  proof (cases "code > 0")
    case False
    with "1.prems" have z: "code = 0" by simp
    show ?thesis
      by (subst get_isbn_code_pos_loop.simps) (simp add: z even_digits_nonpos odd_digits_def)
  next
    case pos: True
    then have nn: "0 \<le> code div 10" by simp
    have E: "even_digits code = code mod 10 + 10 * odd_digits (code div 10)"
      using "1.prems" by (rule even_digits_step)
    have O: "odd_digits code = even_digits (code div 10)"
      by (rule odd_digits_step)
    show ?thesis
    proof (cases "i mod 2 = 0")
      case True
      then have odd: "(i + 1) mod 2 \<noteq> 0" and half: "(i + 1) div 2 = i div 2" by presburger+
      have step: "get_isbn_code_pos_loop code i x y =
          get_isbn_code_pos_loop (code div 10) (i + 1) (x + (code mod 10) * 10 ^ (i div 2)) y"
        using pos True by (subst get_isbn_code_pos_loop.simps) simp
      have "get_isbn_code_pos_loop (code div 10) (i + 1) (x + code mod 10 * 10 ^ (i div 2)) y =
            (x + code mod 10 * 10 ^ (i div 2) + 10 ^ (i div 2 + 1) * odd_digits (code div 10),
             y + 10 ^ (i div 2) * even_digits (code div 10))"
        using "1.IH"(1) [OF pos True nn] odd half by presburger
      then show ?thesis unfolding step E O using True
        by (simp add: algebra_simps)
    next
      case False
      then have ev: "(i + 1) mod 2 = 0" and half: "(i + 1) div 2 = i div 2 + 1" by presburger+
      have step: "get_isbn_code_pos_loop code i x y =
          get_isbn_code_pos_loop (code div 10) (i + 1) x (y + (code mod 10) * 10 ^ (i div 2))"
        using pos False by (subst get_isbn_code_pos_loop.simps) simp
      have "get_isbn_code_pos_loop (code div 10) (i + 1) x (y + code mod 10 * 10 ^ (i div 2)) =
            (x + 10 ^ (i div 2 + 1) * even_digits (code div 10),
             y + code mod 10 * 10 ^ (i div 2) + 10 ^ (i div 2 + 1) * odd_digits (code div 10))"
        using "1.IH"(2) [OF pos False nn] ev half by presburger
      then show ?thesis unfolding step E O using False
        by (simp add: algebra_simps)
    qed
  qed
qed

lemma get_isbn_code_pos_digits:
  "0 \<le> code \<Longrightarrow> get_isbn_code_pos code = (even_digits code, odd_digits code)"
  by (simp add: get_isbn_code_pos_def loop_digits)


lemma interleave_nonneg: "0 \<le> x \<Longrightarrow> 0 \<le> y \<Longrightarrow> 0 \<le> interleave x y"
proof (induction x y rule: interleave.induct)
  case (1 x y)
  show ?case
  proof (cases "x > 0 \<or> y > 0")
    case True
    with 1 have "0 \<le> interleave y (x div 10)" by simp
    then show ?thesis using True by (subst interleave.simps) simp
  next
    case False
    then show ?thesis by (subst interleave.simps) simp
  qed
qed

lemma split_interleave:
  "0 \<le> x \<Longrightarrow> 0 \<le> y \<Longrightarrow>
   even_digits (interleave x y) = x \<and> odd_digits (interleave x y) = y"
proof (induction x y rule: interleave.induct)
  case (1 x y)
  show ?case
  proof (cases "x > 0 \<or> y > 0")
    case False
    with "1.prems" have "x = 0" "y = 0" by auto
    then show ?thesis
      by (subst (1 2) interleave.simps) (simp add: even_digits_nonpos odd_digits_def)
  next
    case True
    define j where "j = interleave y (x div 10)"
    have jn: "0 \<le> j" unfolding j_def using "1.prems" by (intro interleave_nonneg) auto
    have IH: "even_digits j = y" "odd_digits j = x div 10"
      unfolding j_def using "1.IH" [OF True] "1.prems" by auto
    have J: "interleave x y = x mod 10 + 10 * j"
      unfolding j_def using True by (subst interleave.simps) simp
    have m: "(x mod 10 + 10 * j) mod 10 = x mod 10" by simp
    have d: "(x mod 10 + 10 * j) div 10 = j" by simp
    have nn: "0 \<le> x mod 10 + 10 * j" using jn by simp
    show ?thesis
      unfolding J even_digits_step [OF nn] odd_digits_step [of "x mod 10 + 10 * j"] m d
      using IH by simp
  qed
qed

lemma interleave_split: "0 \<le> c \<Longrightarrow> interleave (even_digits c) (odd_digits c) = c"
proof (induction "nat c" arbitrary: c rule: less_induct)
  case less
  show ?case
  proof (cases "c = 0")
    case True
    then show ?thesis
      by (subst interleave.simps) (simp add: even_digits_nonpos odd_digits_def)
  next
    case False
    with less.prems have pos: "0 < c" by simp
    then have "nat (c div 10) < nat c" by simp
    moreover have nn: "0 \<le> c div 10" using pos by simp
    ultimately have IH: "interleave (even_digits (c div 10)) (odd_digits (c div 10)) = c div 10"
      by (rule less.hyps)
    have E: "even_digits c = c mod 10 + 10 * odd_digits (c div 10)"
      using less.prems by (rule even_digits_step)
    have O: "odd_digits c = even_digits (c div 10)"
      by (rule odd_digits_step)
    have on: "0 \<le> odd_digits (c div 10)" by (rule odd_digits_nonneg)
    show ?thesis
    proof (cases "even_digits c > 0 \<or> odd_digits c > 0")
      case True
      have m: "(c mod 10 + 10 * odd_digits (c div 10)) mod 10 = c mod 10" by simp
      have d: "(c mod 10 + 10 * odd_digits (c div 10)) div 10 = odd_digits (c div 10)" by simp
      have "interleave (even_digits c) (odd_digits c) =
            even_digits c mod 10 + 10 * interleave (odd_digits c) (even_digits c div 10)"
        using True by (subst interleave.simps) simp
      also have "\<dots> = c mod 10 + 10 * (c div 10)"
        unfolding E O m d IH ..
      finally show ?thesis by simp
    next
      case F: False
      with even_digits_nonneg [of c] odd_digits_nonneg [of c]
      have z: "even_digits c = 0" "odd_digits c = 0" by auto
      from z(1) E on have "c mod 10 = 0" "odd_digits (c div 10) = 0"
        using pos_mod_sign [of 10 c] by auto
      moreover from z(2) O have "even_digits (c div 10) = 0" by simp
      ultimately have "c div 10 = interleave 0 0" using IH by simp
      then have "c div 10 = 0" by (subst (asm) interleave.simps) simp
      with \<open>c mod 10 = 0\<close> have "c = 0" using div_mult_mod_eq [of c 10] by simp
      with pos show ?thesis by simp
    qed
  qed
qed

lemma even_digits_unfold: "0 \<le> c \<Longrightarrow> even_digits c = c mod 10 + 10 * even_digits (c div 100)"
  by (subst even_digits.simps) (auto simp: even_digits_nonpos)

lemma div_10_100: "(c::int) div 10 div 100 = c div 100 div 10"
proof -
  have "c div (10 * 100) = c div 10 div 100" by (rule zdiv_zmult2_eq) simp
  moreover have "c div (100 * 10) = c div 100 div 10" by (rule zdiv_zmult2_eq) simp
  ultimately show ?thesis by simp
qed

lemma odd_digits_unfold:
  assumes "0 \<le> c"
  shows "odd_digits c = (c div 10) mod 10 + 10 * odd_digits (c div 100)"
proof -
  have "0 \<le> c div 10" using assms by simp
  then show ?thesis
    unfolding odd_digits_def by (subst even_digits_unfold) (simp_all add: div_10_100)
qed

lemma digits_bound:
  "0 \<le> c \<Longrightarrow> c < 100 ^ k \<Longrightarrow> even_digits c < 10 ^ k \<and> odd_digits c < 10 ^ k"
proof (induction k arbitrary: c)
  case 0
  then have "c = 0" by simp
  then show ?case by (simp add: even_digits_nonpos odd_digits_def)
next
  case (Suc k)
  have nn: "0 \<le> c div 100" using Suc.prems by simp
  have lt: "c div 100 < 100 ^ k" using Suc.prems by simp
  from Suc.IH [OF nn lt]
  have e: "even_digits (c div 100) < 10 ^ k" and o: "odd_digits (c div 100) < 10 ^ k" by auto
  have m1: "c mod 10 < 10" and m2: "(c div 10) mod 10 < 10" by simp_all
  show ?case
    unfolding even_digits_unfold [OF Suc.prems(1)] odd_digits_unfold [OF Suc.prems(1)] power_Suc
    using e o m1 m2 by linarith
qed

lemma interleave_step:
  "0 \<le> x \<Longrightarrow> 0 \<le> y \<Longrightarrow> interleave x y = x mod 10 + 10 * interleave y (x div 10)"
proof (cases "x > 0 \<or> y > 0")
  case True
  then show ?thesis by (subst interleave.simps) simp
next
  case False
  moreover assume "0 \<le> x" "0 \<le> y"
  ultimately have z: "x = 0" "y = 0" by auto
  have "interleave 0 0 = 0" by (subst interleave.simps) simp
  then show ?thesis by (simp add: z)
qed

lemma interleave_bound:
  "0 \<le> x \<Longrightarrow> x < 10 ^ k \<Longrightarrow> 0 \<le> y \<Longrightarrow> y < 10 ^ k \<Longrightarrow> interleave x y < 100 ^ k"
proof (induction k arbitrary: x y)
  case 0
  then have "x = 0" "y = 0" by simp_all
  then show ?case by (subst interleave.simps) simp
next
  case (Suc k)
  have x': "0 \<le> x div 10" "x div 10 < 10 ^ k" using Suc.prems by simp_all
  have y': "0 \<le> y div 10" "y div 10 < 10 ^ k" using Suc.prems by simp_all
  have IH: "interleave (x div 10) (y div 10) < 100 ^ k"
    using x' y' by (intro Suc.IH)
  have two: "interleave x y = x mod 10 + 10 * (y mod 10 + 10 * interleave (x div 10) (y div 10))"
    using interleave_step [OF Suc.prems(1) Suc.prems(3)] interleave_step [OF Suc.prems(3) x'(1)]
    by simp
  have m1: "x mod 10 < 10" and m2: "y mod 10 < 10" by simp_all
  have "a + 10 * (b + 10 * i) < 100 * p" if "a < 10" "b < 10" "i < p" for a b i p :: int
    using that by (simp add: algebra_simps)
  from this [OF m1 m2 IH] show ?case unfolding two power_Suc .
qed

lemma digit_at_div: "digit_at (c div 10 ^ j) i = digit_at c (j + i)"
proof -
  have "c div (10 ^ j * 10 ^ i) = c div 10 ^ j div 10 ^ i" by (rule zdiv_zmult2_eq) simp
  then show ?thesis by (simp add: digit_at_def power_add)
qed

lemma even_digits_sum:
  "0 \<le> c \<Longrightarrow> c < 100 ^ n \<Longrightarrow> even_digits c = (\<Sum>k<n. digit_at c (2 * k) * 10 ^ k)"
proof (induction n arbitrary: c)
  case 0
  then have "c = 0" by simp
  then show ?case by (simp add: even_digits_nonpos)
next
  case (Suc n)
  have nn: "0 \<le> c div 100" using Suc.prems by simp
  have lt: "c div 100 < 100 ^ n" using Suc.prems by simp
  have sh: "digit_at (c div 100) (2 * k) = digit_at c (2 * Suc k)" for k
    using digit_at_div [of c 2 "2 * k"] by simp
  have "even_digits c = c mod 10 + 10 * (\<Sum>k<n. digit_at (c div 100) (2 * k) * 10 ^ k)"
    unfolding even_digits_unfold [OF Suc.prems(1)] Suc.IH [OF nn lt] ..
  moreover have "10 * (\<Sum>k<n. digit_at (c div 100) (2 * k) * 10 ^ k) =
      (\<Sum>k<n. digit_at c (2 * Suc k) * 10 ^ Suc k)"
    unfolding sum_distrib_left by (rule sum.cong) (simp_all add: sh)
  moreover have "c mod 10 = digit_at c (2 * 0) * 10 ^ 0"
    by (simp add: digit_at_def)
  ultimately have "even_digits c =
      digit_at c (2 * 0) * 10 ^ 0 + (\<Sum>k<n. digit_at c (2 * Suc k) * 10 ^ Suc k)"
    by (simp only:)
  also have "\<dots> = (\<Sum>k<Suc n. digit_at c (2 * k) * 10 ^ k)"
    by (rule sum.lessThan_Suc_shift [symmetric])
  finally show ?case .
qed

lemma odd_digits_sum:
  assumes "0 \<le> c" "c < 100 ^ n"
  shows "odd_digits c = (\<Sum>k<n. digit_at c (2 * k + 1) * 10 ^ k)"
proof -
  have nn: "0 \<le> c div 10" using assms by simp
  have "c div 10 \<le> c" using assms(1) by (simp add: div_le_dividend) 
  then have lt: "c div 10 < 100 ^ n" using assms by simp
  have sh: "digit_at (c div 10) (2 * k) = digit_at c (2 * k + 1)" for k
    using digit_at_div [of c 1 "2 * k"] by simp
  show ?thesis
    unfolding odd_digits_def even_digits_sum [OF nn lt] sh ..
qed


text \<open>
  Claim C5. Restricted to \<open>[0, 10^8)\<close>, \<open>get_isbn_code_pos\<close> is a bijection onto
  \<open>[0, 10^4) \<times> [0, 10^4)\<close>; \<open>x\<close> is assembled from the decimal digits at the even
  indices (least significant first: the digit at index \<open>2k\<close> weighs \<open>10^k\<close>) and \<open>y\<close>
  from the digits at the odd indices.
\<close>

theorem get_isbn_code_pos_bijection:
  "bij_betw get_isbn_code_pos {0 ..< 10 ^ 8} ({0 ..< 10 ^ 4} \<times> {0 ..< 10 ^ 4}) \<and>
   (\<forall>c \<in> {0 ..< 10 ^ 8}. get_isbn_code_pos c =
      (\<Sum>k<4. digit_at c (2 * k) * 10 ^ k, \<Sum>k<4. digit_at c (2 * k + 1) * 10 ^ k))"
proof
  have p8: "(10::int) ^ 8 = 100 ^ 4" by simp
  show "bij_betw get_isbn_code_pos {0 ..< 10 ^ 8} ({0 ..< 10 ^ 4} \<times> {0 ..< 10 ^ 4})"
  proof (rule bij_betw_byWitness [where f' = "\<lambda>(x, y). interleave x y"])
    show "\<forall>c \<in> {0 ..< 10 ^ 8}. (\<lambda>(x, y). interleave x y) (get_isbn_code_pos c) = c"
      by (simp add: get_isbn_code_pos_digits interleave_split)
    show "\<forall>p \<in> {0 ..< 10 ^ 4} \<times> {0 ..< 10 ^ 4}.
            get_isbn_code_pos ((\<lambda>(x, y). interleave x y) p) = p"
      by (auto simp: get_isbn_code_pos_digits interleave_nonneg split_interleave)
    show "get_isbn_code_pos ` {0 ..< 10 ^ 8} \<subseteq> {0 ..< 10 ^ 4} \<times> {0 ..< 10 ^ 4}"
    proof
      fix p assume "p \<in> get_isbn_code_pos ` {0 ..< 10 ^ 8}"
      then obtain c where c: "0 \<le> c" "c < 100 ^ 4" and p: "p = get_isbn_code_pos c"
        unfolding p8 by auto
      from digits_bound [OF c] even_digits_nonneg [of c] odd_digits_nonneg [of c]
      show "p \<in> {0 ..< 10 ^ 4} \<times> {0 ..< 10 ^ 4}"
        by (simp add: p get_isbn_code_pos_digits c(1))
    qed
    show "(\<lambda>(x, y). interleave x y) ` ({0 ..< 10 ^ 4} \<times> {0 ..< 10 ^ 4}) \<subseteq> {0 ..< 10 ^ 8}"
    proof
      fix c assume "c \<in> (\<lambda>(x, y). interleave x y) ` ({0 ..< 10 ^ 4} \<times> {0 ..< 10 ^ 4})"
      then obtain x y where xy: "0 \<le> x" "x < 10 ^ 4" "0 \<le> y" "y < 10 ^ 4"
        and c: "c = interleave x y" by auto
      from interleave_bound [OF xy] interleave_nonneg [OF xy(1) xy(3)]
      show "c \<in> {0 ..< 10 ^ 8}" unfolding p8 by (simp add: c)
    qed
  qed
  show "\<forall>c \<in> {0 ..< 10 ^ 8}. get_isbn_code_pos c =
      (\<Sum>k<4. digit_at c (2 * k) * 10 ^ k, \<Sum>k<4. digit_at c (2 * k + 1) * 10 ^ k)"
  proof
    fix c :: int assume "c \<in> {0 ..< 10 ^ 8}"
    then have c: "0 \<le> c" "c < 100 ^ 4" unfolding p8 by auto
    show "get_isbn_code_pos c =
      (\<Sum>k<4. digit_at c (2 * k) * 10 ^ k, \<Sum>k<4. digit_at c (2 * k + 1) * 10 ^ k)"
      unfolding get_isbn_code_pos_digits [OF c(1)] even_digits_sum [OF c] odd_digits_sum [OF c] ..
  qed
qed

text \<open>The position \<open>12345678\<close> lands on the pixel \<open>(2468, 1357)\<close>.\<close>

theorem get_isbn_code_pos_bijection_witness:
  "(12345678::int) \<in> {0 ..< 10 ^ 8} \<and> get_isbn_code_pos 12345678 = (2468, 1357) \<and>
   (2468, 1357) \<in> ({0 ..< 10 ^ 4} \<times> {0 ..< 10 ^ 4} :: (int \<times> int) set) \<and>
   inj_on get_isbn_code_pos {0 ..< 10 ^ 8}"
proof -
  have m: "(12345678::int) \<in> {0 ..< 10 ^ 8}" by simp
  from get_isbn_code_pos_bijection have
    b: "bij_betw get_isbn_code_pos {0 ..< 10 ^ 8} ({0 ..< 10 ^ 4} \<times> {0 ..< 10 ^ 4})" and
    d: "\<forall>c \<in> {0 ..< 10 ^ 8}. get_isbn_code_pos c =
      (\<Sum>k<4. digit_at c (2 * k) * 10 ^ k, \<Sum>k<4. digit_at c (2 * k + 1) * 10 ^ k)"
    by blast+
  from d m have "get_isbn_code_pos 12345678 =
      (\<Sum>k<4. digit_at 12345678 (2 * k) * 10 ^ k, \<Sum>k<4. digit_at 12345678 (2 * k + 1) * 10 ^ k)"
    by blast
  also have "\<dots> = (2468, 1357)"
    by (simp add: digit_at_def lessThan_nat_numeral lessThan_Suc)
  finally show ?thesis using m b by (simp add: bij_betw_def)
qed

section \<open>The decoder and incomplete records\<close>

lemma decode_stream_complete:
  assumes "complete_record f"
  shows "decode_stream (f @ rest) =
           (decode_record (hd f) (tl f) # fst (decode_stream rest), snd (decode_stream rest))"
proof -
  from assms obtain b data where f: "f = b # data" and len: "length data = record_size b"
    by (auto simp: complete_record_def split: list.splits)
  show ?thesis
    by (simp add: f len decode_stream.simps(2) split: prod.splits)
qed

lemma decode_stream_truncated:
  assumes "truncated_record t"
  shows "decode_stream t = ([], Some IncompleteRecordData)"
proof -
  from assms obtain b data where t: "t = b # data" and len: "length data < record_size b"
    by (auto simp: truncated_record_def split: list.splits)
  show ?thesis
    by (simp add: t len decode_stream.simps(2))
qed

lemma decode_stream_records:
  assumes "list_all complete_record fs"
  shows "decode_stream (concat fs @ t) =
           (map (\<lambda>f. decode_record (hd f) (tl f)) fs @ fst (decode_stream t), snd (decode_stream t))"
  using assms
proof (induction fs)
  case Nil
  then show ?case by simp
next
  case (Cons f fs)
  then have f: "complete_record f" and fs: "list_all complete_record fs" by simp_all
  show ?case
    using decode_stream_complete [OF f, of "concat fs @ t"] Cons.IH [OF fs] by simp
qed

lemma stream_split:
  "\<exists>fs t. stream = concat fs @ t \<and> list_all complete_record fs \<and> (t = [] \<or> truncated_record t)"
proof (induction "length stream" arbitrary: stream rule: less_induct)
  case less
  show ?case
  proof (cases stream)
    case Nil
    then have "stream = concat [] @ [] \<and> list_all complete_record []" by simp
    then show ?thesis by blast
  next
    case (Cons b rest)
    show ?thesis
    proof (cases "length rest < record_size b")
      case True
      then have "truncated_record stream" by (simp add: truncated_record_def Cons)
      then have "stream = concat [] @ stream \<and> list_all complete_record [] \<and> truncated_record stream"
        by simp
      then show ?thesis by blast
    next
      case False
      define f where "f = b # take (record_size b) rest"
      define rest' where "rest' = drop (record_size b) rest"
      have f: "complete_record f" using False by (simp add: f_def complete_record_def)
      have s: "stream = f @ rest'" by (simp add: f_def rest'_def Cons)
      have "length rest' < length stream" by (simp add: rest'_def Cons)
      from less [OF this] obtain fs t where
        r: "rest' = concat fs @ t" "list_all complete_record fs" "t = [] \<or> truncated_record t"
        by blast
      have "stream = concat (f # fs) @ t \<and> list_all complete_record (f # fs) \<and>
            (t = [] \<or> truncated_record t)"
        using r f s by simp
      then show ?thesis by blast
    qed
  qed
qed

lemma read_positions_length: "length (read_positions n pos record_data) = n"
  by (induction n arbitrary: pos) simp_all

text \<open>
  Claim C6. Every byte stream is a sequence of complete records followed by nothing or
  by one truncated record (a start byte with fewer bytes after it than it announces).
  \<open>decode_stream\<close> yields exactly the complete records, each with all the positions its
  start byte announces, and raises the incomplete-record error if and only if the stream
  ends inside a record; a stream that ends on a record boundary, the empty stream
  included, ends normally.
\<close>

theorem decode_stream_incomplete_iff:
  "(\<exists>fs t. stream = concat fs @ t \<and> list_all complete_record fs \<and>
            (t = [] \<or> truncated_record t)) \<and>
   (\<forall>fs t. stream = concat fs @ t \<and> list_all complete_record fs \<and>
            (t = [] \<or> truncated_record t) \<longrightarrow>
      decode_stream stream =
        (map (\<lambda>f. decode_record (hd f) (tl f)) fs,
         if t = [] then None else Some IncompleteRecordData) \<and>
      (\<forall>f \<in> set fs. length (isbn_positions (decode_record (hd f) (tl f))) = isbn_count_of (hd f)))"
proof (intro conjI allI impI ballI)
  show "\<exists>fs t. stream = concat fs @ t \<and> list_all complete_record fs \<and>
            (t = [] \<or> truncated_record t)"
    by (rule stream_split)
next
  fix fs t
  assume a: "stream = concat fs @ t \<and> list_all complete_record fs \<and> (t = [] \<or> truncated_record t)"
  then have s: "stream = concat fs @ t" and fs: "list_all complete_record fs"
    and t: "t = [] \<or> truncated_record t" by simp_all
  show "decode_stream stream =
        (map (\<lambda>f. decode_record (hd f) (tl f)) fs,
         if t = [] then None else Some IncompleteRecordData)"
  proof (cases "t = []")
    case True
    then show ?thesis using decode_stream_records [OF fs, of t] s by simp
  next
    case False
    with t have "truncated_record t" by simp
    from decode_stream_truncated [OF this] show ?thesis
      using decode_stream_records [OF fs, of t] s False by simp
  qed
next
  fix fs t f
  show "length (isbn_positions (decode_record (hd f) (tl f))) = isbn_count_of (hd f)"
    by (simp add: decode_record_def Let_def read_positions_length)
qed

text \<open>
  The decoder's own tests: one complete record \<open>C1 2A 05 00 00 03 E8\<close> (holdings 42,
  year 2020, position 1000), here followed by a record cut after two position bytes.
\<close>

theorem decode_stream_incomplete_iff_witness:
  "decode_stream [0xC1, 42, 5, 0, 0, 3, 232, 0xC1, 42, 5, 0, 0] =
     ([\<lparr>isbn_positions = [1000], holdings_count = Some 42, year = Some 2020\<rparr>],
      Some IncompleteRecordData)"
proof -
  let ?f = "[0xC1, 42, 5, 0, 0, 3, 232] :: byte list"
  let ?t = "[0xC1, 42, 5, 0, 0] :: byte list"
  have fl: "has_count_of 0xC1" "has_year_of 0xC1" "isbn_count_of 0xC1 = 1"
    by (simp_all add: isbn_count_of_def has_count_of_def has_year_of_def)
  have rs: "record_size 0xC1 = 6"
    by (simp add: record_size_def fl)
  have c: "[0xC1, 42, 5, 0, 0, 3, 232, 0xC1, 42, 5, 0, 0] = concat [?f] @ ?t \<and>
           list_all complete_record [?f] \<and> (?t = [] \<or> truncated_record ?t)"
    by (simp add: complete_record_def truncated_record_def rs)
  have d: "decode_record 0xC1 [42, 5, 0, 0, 3, 232] =
           \<lparr>isbn_positions = [1000], holdings_count = Some 42, year = Some 2020\<rparr>"
    by (simp add: decode_record_def fl from_bytes_big_def)
  from decode_stream_incomplete_iff [of "[0xC1, 42, 5, 0, 0, 3, 232, 0xC1, 42, 5, 0, 0]"] c
  have "decode_stream [0xC1, 42, 5, 0, 0, 3, 232, 0xC1, 42, 5, 0, 0] =
        (map (\<lambda>f. decode_record (hd f) (tl f)) [?f],
         if ?t = [] then None else Some IncompleteRecordData)"
    by blast
  then show ?thesis by (simp add: d)
qed

section \<open>The invalid-ISBN filter is idempotent\<close>

lemma filter_invalid_isbns_parts:
  "filter_invalid_isbns S = isbn10s_of S \<union> valid_isbn13s_of S \<union> isbns_978_of S \<union> isbns_979_of S"
  by (simp only: filter_invalid_isbns_def Let_def isbn10s_of_def bases1_of_def
      valid_isbn13s_of_def remaining1_of_def isbns_978_of_def bases2_of_def remaining2_of_def
      isbns_979_of_def)

lemma filter_subset: "filter_invalid_isbns S \<subseteq> S"
  by (auto simp: filter_invalid_isbns_parts isbn10s_of_def valid_isbn13s_of_def
      isbns_978_of_def isbns_979_of_def remaining2_of_def remaining1_of_def)

lemma length_13_parts:
  "x \<in> valid_isbn13s_of S \<Longrightarrow> length x = 13"
  "x \<in> remaining1_of S \<Longrightarrow> length x = 13"
  "x \<in> isbns_978_of S \<Longrightarrow> length x = 13"
  "x \<in> isbns_979_of S \<Longrightarrow> length x = 13"
  by (auto simp: valid_isbn13s_of_def isbns_978_of_def isbns_979_of_def remaining2_of_def
      remaining1_of_def)

lemma isbn10s_filter: "isbn10s_of (filter_invalid_isbns S) = isbn10s_of S"
proof
  show "isbn10s_of (filter_invalid_isbns S) \<subseteq> isbn10s_of S"
    using filter_subset [of S] by (auto simp: isbn10s_of_def)
  show "isbn10s_of S \<subseteq> isbn10s_of (filter_invalid_isbns S)"
    by (auto simp: filter_invalid_isbns_parts isbn10s_of_def)
qed

lemma bases1_filter: "bases1_of (filter_invalid_isbns S) = bases1_of S"
  by (simp add: bases1_of_def isbn10s_filter)

lemma valid_isbn13s_filter: "valid_isbn13s_of (filter_invalid_isbns S) = valid_isbn13s_of S"
proof
  show "valid_isbn13s_of (filter_invalid_isbns S) \<subseteq> valid_isbn13s_of S"
    using filter_subset [of S] by (auto simp: valid_isbn13s_of_def bases1_filter)
  show "valid_isbn13s_of S \<subseteq> valid_isbn13s_of (filter_invalid_isbns S)"
  proof
    fix x assume x: "x \<in> valid_isbn13s_of S"
    then have "x \<in> filter_invalid_isbns S" by (simp add: filter_invalid_isbns_parts)
    with x show "x \<in> valid_isbn13s_of (filter_invalid_isbns S)"
      by (simp add: valid_isbn13s_of_def bases1_filter)
  qed
qed

lemma remaining1_filter:
  "remaining1_of (filter_invalid_isbns S) = isbns_978_of S \<union> isbns_979_of S"
proof
  show "remaining1_of (filter_invalid_isbns S) \<subseteq> isbns_978_of S \<union> isbns_979_of S"
  proof
    fix x assume x: "x \<in> remaining1_of (filter_invalid_isbns S)"
    then have m: "x \<in> filter_invalid_isbns S" and l: "length x = 13"
      and nv: "x \<notin> valid_isbn13s_of S"
      by (simp_all add: remaining1_of_def [of "filter_invalid_isbns S"] valid_isbn13s_filter)
    from m l nv show "x \<in> isbns_978_of S \<union> isbns_979_of S"
      by (auto simp: filter_invalid_isbns_parts isbn10s_of_def)
  qed
  show "isbns_978_of S \<union> isbns_979_of S \<subseteq> remaining1_of (filter_invalid_isbns S)"
  proof
    fix x assume x: "x \<in> isbns_978_of S \<union> isbns_979_of S"
    then have r: "x \<in> remaining1_of S"
      by (auto simp: isbns_978_of_def isbns_979_of_def remaining2_of_def)
    from x have m: "x \<in> filter_invalid_isbns S" by (auto simp: filter_invalid_isbns_parts)
    from r m show "x \<in> remaining1_of (filter_invalid_isbns S)"
      by (simp add: remaining1_of_def [of "filter_invalid_isbns S"] remaining1_of_def [of S]
          valid_isbn13s_filter bases1_filter)
  qed
qed

lemma isbns_979_not_978: "x \<in> isbns_979_of S \<Longrightarrow> \<not> startswith x ''978''"
  by (auto simp: isbns_979_of_def remaining2_of_def isbns_978_of_def)

lemma isbns_978_filter: "isbns_978_of (filter_invalid_isbns S) = isbns_978_of S"
proof -
  have "isbns_978_of (filter_invalid_isbns S) =
        {x \<in> isbns_978_of S \<union> isbns_979_of S. startswith x ''978''}"
    by (simp add: isbns_978_of_def [of "filter_invalid_isbns S"] remaining1_filter)
  also have "\<dots> = isbns_978_of S"
    using isbns_979_not_978 [of _ S] by (auto simp: isbns_978_of_def [of S])
  finally show ?thesis .
qed

lemma bases2_filter: "bases2_of (filter_invalid_isbns S) = bases2_of S"
  by (simp add: bases2_of_def bases1_filter isbns_978_filter)

lemma isbns_979_filter: "isbns_979_of (filter_invalid_isbns S) = isbns_979_of S"
proof -
  have "isbns_979_of (filter_invalid_isbns S) =
        {x \<in> isbns_978_of S \<union> isbns_979_of S.
           \<not> (\<exists>base \<in> bases2_of S. startswith x base) \<and> x \<notin> isbns_978_of S \<and>
           \<not> (\<exists>base \<in> bases2_of S. startswith x (''979'' @ base))}"
    by (auto simp: isbns_979_of_def [of "filter_invalid_isbns S"]
        remaining2_of_def [of "filter_invalid_isbns S"] remaining1_filter bases2_filter
        isbns_978_filter)
  also have "\<dots> = isbns_979_of S"
    by (auto simp: isbns_979_of_def [of S] remaining2_of_def [of S])
  finally show ?thesis .
qed

text \<open>
  Claim C8. For every set \<open>S\<close> of ISBN strings,
  \<open>filter_invalid_isbns (filter_invalid_isbns S) = filter_invalid_isbns S\<close>.
\<close>

theorem filter_invalid_isbns_idempotent:
  "filter_invalid_isbns (filter_invalid_isbns S) = filter_invalid_isbns S"
proof -
  have "filter_invalid_isbns (filter_invalid_isbns S) =
        isbn10s_of (filter_invalid_isbns S) \<union> valid_isbn13s_of (filter_invalid_isbns S) \<union>
        isbns_978_of (filter_invalid_isbns S) \<union> isbns_979_of (filter_invalid_isbns S)"
    by (rule filter_invalid_isbns_parts)
  also have "\<dots> = isbn10s_of S \<union> valid_isbn13s_of S \<union> isbns_978_of S \<union> isbns_979_of S"
    by (simp only: isbn10s_filter valid_isbn13s_filter isbns_978_filter isbns_979_filter)
  also have "\<dots> = filter_invalid_isbns S"
    by (rule filter_invalid_isbns_parts [symmetric])
  finally show ?thesis .
qed

text \<open>
  The filter's own test \<open>test_mixed_valid_invalid\<close>: two of the five strings are
  dropped, and filtering the result again changes nothing.
\<close>

lemma filter_mixed:
  "filter_invalid_isbns {''968670857X'', ''9789686708578'', ''9799686708577'',
       ''9790900007704'', ''9789790900004''} =
   {''968670857X'', ''9789686708578'', ''9789790900004''}"
  by code_simp

theorem filter_invalid_isbns_idempotent_witness:
  "filter_invalid_isbns {''968670857X'', ''9789686708578'', ''9789790900004''} =
   {''968670857X'', ''9789686708578'', ''9789790900004''}"
  using filter_invalid_isbns_idempotent [of "{''968670857X'', ''9789686708578'',
       ''9799686708577'', ''9790900007704'', ''9789790900004''}"]
  unfolding filter_mixed .

section \<open>Year candidates\<close>

text \<open>
  Claim C3 says that the candidates are all the bounded four-digit runs, runs that
  share their boundary character with the run before them included. The pattern
  consumes the boundary character, so in \<open>1966-1967\<close> the match of \<open>1966-\<close> leaves
  \<open>1967\<close> without a boundary on its left and the year is not a candidate, against the
  comment in the source ("all valid years that are bounded by non-digits or string
  boundaries"). With a second string \<open>1967\<close> the extractor returns 1966 by the tie rule,
  where the candidates 1966, 1967, 1967 of the claim give 1967.
\<close>

theorem year_candidates_shared_boundary:
  "year_candidates [''1966-1967''] = [1966] \<and>
   spec_year_candidates [''1966-1967''] = [1966, 1967] \<and>
   extract_most_likely_year [''1966-1967'', ''1967''] = Some 1966"
  by code_simp

section \<open>The rewrite of mis-prefixed positions\<close>

lemma get_isbn_position_range:
  "get_isbn_position isbn = Some p \<Longrightarrow> 0 \<le> p \<and> p < 2 ^ 32"
  by (auto simp: get_isbn_position_def Let_def split: if_splits)

lemma fix_prefix_mis_prefixed:
  "0 \<le> p \<Longrightarrow> p < 2 ^ 32 \<Longrightarrow> fix_prefix p = (if mis_prefixed p then p - 1000000000 else p)"
  by (auto simp: fix_prefix_def mis_prefixed_def)

lemma flush_positions_survivors:
  assumes "surviving_isbns S = Inr survivors"
  shows "flush_positions S =
           Inr ((\<lambda>p. if mis_prefixed p then p - 1000000000 else p) `
                  {p. \<exists>isbn \<in> survivors. get_isbn_position isbn = Some p})"
proof -
  have "(\<Union>isbn \<in> survivors.
           case get_isbn_position isbn of None \<Rightarrow> {} | Some pos \<Rightarrow> {fix_prefix pos}) =
        (\<lambda>p. if mis_prefixed p then p - 1000000000 else p) `
           {p. \<exists>isbn \<in> survivors. get_isbn_position isbn = Some p}" (is "?L = ?R")
  proof
    show "?L \<subseteq> ?R"
    proof
      fix q assume "q \<in> ?L"
      then obtain isbn p where i: "isbn \<in> survivors" "get_isbn_position isbn = Some p"
        and q: "q = fix_prefix p"
        by (auto split: option.splits)
      from get_isbn_position_range [OF i(2)] have "fix_prefix p =
          (if mis_prefixed p then p - 1000000000 else p)"
        by (simp add: fix_prefix_mis_prefixed)
      with i q show "q \<in> ?R" by blast
    qed
    show "?R \<subseteq> ?L"
    proof
      fix q assume "q \<in> ?R"
      then obtain isbn p where i: "isbn \<in> survivors" "get_isbn_position isbn = Some p"
        and q: "q = (if mis_prefixed p then p - 1000000000 else p)"
        by blast
      from get_isbn_position_range [OF i(2)] have "q = fix_prefix p"
        by (simp add: fix_prefix_mis_prefixed q)
      with i show "q \<in> ?L" by force
    qed
  qed
  then show ?thesis by (simp add: flush_positions_def assms)
qed

lemma get_isbn_position_980: "get_isbn_position ''9800000000007'' = Some 2000000000"
  by code_simp

lemma surviving_980: "surviving_isbns {''9800000000007''} = Inr {''9800000000007''}"
  by code_simp

text \<open>
  Claim C2 fails for positions from \<open>2\<cdot>10^9\<close> up: the guard in \<open>_create_bytes\<close> has no
  upper bound, so such a position is rewritten too. \<open>9800000000007\<close> has a valid check
  digit and survives the filter; its position \<open>2\<cdot>10^9\<close> is in none of the three
  intervals of the claim, and the flush emits \<open>10^9\<close> in its place.
\<close>

theorem mis_prefix_counterexample:
  "surviving_isbns {''9800000000007''} = Inr {''9800000000007''} \<and>
   get_isbn_position ''9800000000007'' = Some 2000000000 \<and>
   (0::int) \<le> 2000000000 \<and> (2000000000::int) < 2 ^ 32 \<and>
   \<not> spec_mis_prefixed 2000000000 \<and>
   flush_positions {''9800000000007''} = Inr {1000000000}"
proof -
  have "flush_positions {''9800000000007''} = Inr {1000000000}"
    unfolding flush_positions_def surviving_980
    by (simp add: get_isbn_position_980 fix_prefix_def)
  then show ?thesis
    by (simp add: surviving_980 get_isbn_position_980 spec_mis_prefixed_def)
qed

text \<open>
  Claim C2, amended. During flush, for every surviving ISBN whose integer position \<open>p\<close>
  lies in \<open>[0, 2^32)\<close> (every position \<open>_get_isbn_position\<close> returns does), the position
  is replaced by \<open>p - 10^9\<close> exactly when \<open>p\<close> lies in
  \<open>[10^9, 1.1\<cdot>10^9) \<union> [1.14\<cdot>10^9, 1.8\<cdot>10^9) \<union> [1.9\<cdot>10^9, 2^32)\<close>, and is kept unchanged for
  every other \<open>p\<close>: the emitted set is the set of the survivors' positions, each replaced
  or kept by this rule.
\<close>

theorem mis_prefix_rewrite:
  assumes "surviving_isbns S = Inr survivors"
  shows "flush_positions S =
           Inr ((\<lambda>p. if mis_prefixed p then p - 1000000000 else p) `
                  {p. \<exists>isbn \<in> survivors. get_isbn_position isbn = Some p}) \<and>
         (\<forall>isbn \<in> survivors. \<forall>p. get_isbn_position isbn = Some p \<longrightarrow> 0 \<le> p \<and> p < 2 ^ 32) \<and>
         (\<forall>p. 0 \<le> p \<and> p < 2 ^ 32 \<longrightarrow>
            fix_prefix p = (if mis_prefixed p then p - 1000000000 else p))"
proof (intro conjI)
  show "flush_positions S =
           Inr ((\<lambda>p. if mis_prefixed p then p - 1000000000 else p) `
                  {p. \<exists>isbn \<in> survivors. get_isbn_position isbn = Some p})"
    using assms by (rule flush_positions_survivors)
  show "\<forall>isbn \<in> survivors. \<forall>p. get_isbn_position isbn = Some p \<longrightarrow> 0 \<le> p \<and> p < 2 ^ 32"
    using get_isbn_position_range by blast
  show "\<forall>p. 0 \<le> p \<and> p < 2 ^ 32 \<longrightarrow>
            fix_prefix p = (if mis_prefixed p then p - 1000000000 else p)"
    using fix_prefix_mis_prefixed by blast
qed

text \<open>
  \<open>9790000004566\<close> has the position \<open>1000000456\<close>, in the first interval, and is moved
  to \<open>456\<close>; \<open>9791036501005\<close> has the position \<open>1103650100\<close>, between the intervals, and
  stays; \<open>9800000000007\<close> has the position \<open>2\<cdot>10^9\<close>, in the third, and is moved to \<open>10^9\<close>.
\<close>

lemma surviving_three:
  "surviving_isbns {''9790000004566'', ''9791036501005'', ''9800000000007''} =
     Inr {''9790000004566'', ''9791036501005'', ''9800000000007''}"
  by code_simp

lemma get_isbn_position_979:
  "get_isbn_position ''9790000004566'' = Some 1000000456"
  "get_isbn_position ''9791036501005'' = Some 1103650100"
  by code_simp+

theorem mis_prefix_rewrite_witness:
  "flush_positions {''9790000004566'', ''9791036501005'', ''9800000000007''} =
     Inr {456, 1103650100, 1000000000}"
proof -
  let ?S = "{''9790000004566'', ''9791036501005'', ''9800000000007''}"
  from mis_prefix_rewrite [OF surviving_three] have
    "flush_positions ?S =
       Inr ((\<lambda>p. if mis_prefixed p then p - 1000000000 else p) `
              {p. \<exists>isbn \<in> ?S. get_isbn_position isbn = Some p})"
    by blast
  moreover have "{p. \<exists>isbn \<in> ?S. get_isbn_position isbn = Some p} =
        {1000000456, 1103650100, 2000000000}"
    by (auto simp: get_isbn_position_979 get_isbn_position_980)
  ultimately show ?thesis by (auto simp: mis_prefixed_def)
qed

section \<open>Encoding and decoding a record\<close>

lemma uint_byte_of_int: "uint (word_of_int k :: byte) = k mod 256"
  by (simp add: uint_word_of_int)

lemma from_bytes_big_4:
  "from_bytes_big [a, b, c, d] = ((uint a * 256 + uint b) * 256 + uint c) * 256 + uint d"
  by (simp add: from_bytes_big_def)

lemma be32_value:
  assumes "0 \<le> p" "p < 2 ^ 32"
  shows "from_bytes_big [word_of_int (p div 2 ^ 24), word_of_int (p div 2 ^ 16),
           word_of_int (p div 2 ^ 8), word_of_int p :: byte] = p"
proof -
  define q1 where "q1 = p div 256"
  define q2 where "q2 = q1 div 256"
  define q3 where "q3 = q2 div 256"
  have d8: "p div 2 ^ 8 = q1" by (simp add: q1_def)
  have "p div (256 * 256) = p div 256 div 256" by (rule zdiv_zmult2_eq) simp
  then have d16: "p div 2 ^ 16 = q2" by (simp add: q1_def q2_def)
  have "p div (65536 * 256) = p div 65536 div 256" by (rule zdiv_zmult2_eq) simp
  with d16 have d24: "p div 2 ^ 24 = q3" by (simp add: q3_def)
  have "q3 < 256" using assms(2) unfolding d24 [symmetric] by simp
  moreover have "0 \<le> q3" using assms(1) unfolding d24 [symmetric] by simp
  ultimately have m3: "q3 mod 256 = q3" by simp
  have e1: "p = q1 * 256 + p mod 256" by (simp add: q1_def)
  have e2: "q1 = q2 * 256 + q1 mod 256" by (simp add: q2_def)
  have e3: "q2 = q3 * 256 + q2 mod 256" by (simp add: q3_def)
  have "((q3 * 256 + q2 mod 256) * 256 + q1 mod 256) * 256 + p mod 256 = p"
    using e1 e2 e3 by simp
  then show ?thesis
    unfolding from_bytes_big_4 uint_byte_of_int d8 d16 d24 m3 .
qed

lemma pack_be32_in_range: "0 \<le> p \<Longrightarrow> p < 2 ^ 32 \<Longrightarrow> pack_be32 p = Inr (be32 p)"
  by (simp add: pack_be32_def be32_def)

lemma length_be32: "length (be32 p) = 4"
  by (simp add: be32_def)

lemma from_bytes_big_be32: "0 \<le> p \<Longrightarrow> p < 2 ^ 32 \<Longrightarrow> from_bytes_big (be32 p) = p"
  unfolding be32_def by (rule be32_value)

lemma pack_positions_in_range:
  "\<forall>p \<in> set ps. 0 \<le> p \<and> p < 2 ^ 32 \<Longrightarrow> pack_positions ps = Inr (concat (map be32 ps))"
  by (induction ps) (simp_all add: pack_be32_in_range)

lemma read_positions_be32:
  "\<forall>p \<in> set ps. 0 \<le> p \<and> p < 2 ^ 32 \<Longrightarrow> length pre = pos \<Longrightarrow>
   read_positions (length ps) pos (pre @ concat (map be32 ps)) = ps"
proof (induction ps arbitrary: pre pos)
  case Nil
  then show ?case by simp
next
  case (Cons p ps)
  have r: "0 \<le> p" "p < 2 ^ 32" using Cons.prems(1) by simp_all
  have "length (pre @ be32 p) = pos + 4" using Cons.prems(2) by (simp add: length_be32)
  with Cons.IH [of "pre @ be32 p" "pos + 4"] Cons.prems(1)
  have IH: "read_positions (length ps) (pos + 4) (pre @ be32 p @ concat (map be32 ps)) = ps"
    by simp
  have "take 4 (drop pos (pre @ be32 p @ concat (map be32 ps))) = be32 p"
    using Cons.prems(2) by (simp add: length_be32)
  then show ?case using IH by (simp add: from_bytes_big_be32 [OF r])
qed

lemma has_count_bit: "has_count_of w = bit w 7"
  by (simp add: has_count_of_def and_exp_eq_0_iff_not_bit [of w 7, simplified])

lemma has_year_bit: "has_year_of w = bit w 6"
  by (simp add: has_year_of_def and_exp_eq_0_iff_not_bit [of w 6, simplified])

lemma count_cases:
  "n \<le> 15 \<Longrightarrow> n \<in> {0, 1, 2, 3, 4, 5, 6, 7, 8, 9, 10, 11, 12, 13, 14, 15::nat}"
  by (simp only: insert_iff empty_iff) arith

lemma start_byte_has_count: "has_count_of (word_of_int (start_byte_of hc hy n)) = hc"
  by (simp add: has_count_bit start_byte_of_def bit_simps)

lemma start_byte_has_year: "has_year_of (word_of_int (start_byte_of hc hy n)) = hy"
  by (simp add: has_year_bit start_byte_of_def bit_simps)

lemma start_byte_isbn_count:
  "n \<le> 15 \<Longrightarrow> isbn_count_of (word_of_int (start_byte_of hc hy n)) = n"
  apply (drule count_cases)
  apply (cases hc; cases hy)
     apply (simp_all add: isbn_count_of_def start_byte_of_def)
     apply (elim disjE; simp)+
  done

lemma encode_chunk_decodes:
  assumes pos: "\<forall>p \<in> set chunk. 0 \<le> p \<and> p < 2 ^ 32"
    and len: "length chunk \<le> 15"
    and h: "\<forall>v. h = Some v \<longrightarrow> 0 \<le> v \<and> v \<le> 255"
    and y: "\<forall>v. y = Some v \<longrightarrow> 1770 \<le> v \<and> v \<le> 2025"
  shows "\<exists>bs. encode_chunk h y chunk = Inr bs \<and> complete_record bs \<and>
           decode_record (hd bs) (tl bs) =
             \<lparr>isbn_positions = chunk, holdings_count = h, year = y\<rparr>"
proof -
  define sb :: byte where "sb = word_of_int (start_byte_of (h \<noteq> None) (y \<noteq> None) (length chunk))"
  define hb :: "byte list" where
    "hb = (case h of None \<Rightarrow> [] | Some v \<Rightarrow> [word_of_int (min 255 (max 0 v))])"
  define yb :: "byte list" where
    "yb = (case y of None \<Rightarrow> [] | Some v \<Rightarrow> [word_of_int (min 255 (max 0 (2025 - v)))])"
  define bs where "bs = sb # (hb @ yb) @ concat (map be32 chunk)"
  have fl: "has_count_of sb = (h \<noteq> None)" "has_year_of sb = (y \<noteq> None)"
    "isbn_count_of sb = length chunk"
    unfolding sb_def
    by (simp_all only: start_byte_has_count start_byte_has_year start_byte_isbn_count [OF len])
  have enc: "encode_chunk h y chunk = Inr bs"
    by (simp add: encode_chunk_def pack_positions_in_range [OF pos] bs_def sb_def hb_def yb_def)
  have lenc: "length (concat (map be32 chunk)) = 4 * length chunk"
    by (induction chunk) (simp_all add: length_be32)
  have lhy: "length hb + length yb = (if h \<noteq> None then 1 else 0) + (if y \<noteq> None then 1 else 0)"
    by (cases h; cases y) (simp_all add: hb_def yb_def)
  have comp: "complete_record bs"
    using lhy by (simp add: complete_record_def bs_def record_size_def fl lenc)
  have rp: "read_positions (length chunk) (length (hb @ yb)) ((hb @ yb) @ concat (map be32 chunk)) = chunk"
    by (rule read_positions_be32 [OF pos refl])
  have hv: "uint (word_of_int (min 255 (max 0 v)) :: byte) = v" if "h = Some v" for v
  proof -
    from h that have r: "0 \<le> v" "v \<le> 255" by auto
    then have k: "min 255 (max 0 v) = v" by simp
    have "uint (word_of_int v :: byte) = v mod 256" by (rule uint_byte_of_int)
    also have "\<dots> = v" using r by simp
    finally show ?thesis unfolding k .
  qed
  have yv: "2025 - uint (word_of_int (min 255 (max 0 (2025 - v))) :: byte) = v" if "y = Some v" for v
  proof -
    from y that have r: "1770 \<le> v" "v \<le> 2025" by auto
    then have k: "min 255 (max 0 (2025 - v)) = 2025 - v" by simp
    have "uint (word_of_int (2025 - v) :: byte) = (2025 - v) mod 256" by (rule uint_byte_of_int)
    also have "\<dots> = 2025 - v" using r by simp
    finally show ?thesis unfolding k by simp
  qed
  have dec: "decode_record sb ((hb @ yb) @ concat (map be32 chunk)) =
             \<lparr>isbn_positions = chunk, holdings_count = h, year = y\<rparr>"
  proof (cases h)
    case None
    note hN = None
    show ?thesis
    proof (cases y)
      case None
      with hN rp show ?thesis
        by (simp add: decode_record_def fl hb_def yb_def)
    next
      case (Some v)
      with hN rp yv [OF Some] show ?thesis
        by (simp add: decode_record_def fl hb_def yb_def)
    qed
  next
    case (Some u)
    note hS = Some
    show ?thesis
    proof (cases y)
      case None
      with hS rp hv [OF hS] show ?thesis
        by (simp add: decode_record_def fl hb_def yb_def)
    next
      case (Some v)
      with hS rp hv [OF hS] yv [OF Some] show ?thesis
        by (simp add: decode_record_def fl hb_def yb_def)
    qed
  qed
  from enc comp dec show ?thesis by (auto simp: bs_def)
qed

lemma concat_chunks_take:
  "concat (map (\<lambda>k. take m (drop (k * m) xs)) [0 ..< c]) = take (c * m) xs"
proof (induction c)
  case 0
  then show ?case by simp
next
  case (Suc c)
  have "take (c * m) xs @ take m (drop (c * m) xs) = take (c * m + m) xs"
    by (simp add: take_add)
  then show ?case using Suc by (simp add: add.commute)
qed

lemma concat_chunks_of: "concat (chunks_of xs) = xs"
proof -
  have "length xs \<le> (length xs + 14) div 15 * 15" by arith
  then show ?thesis
    by (simp add: chunks_of_def MAX_CHUNK_SIZE_def concat_chunks_take)
qed

lemma chunks_of_chunk:
  assumes "c \<in> set (chunks_of xs)"
  shows "length c \<le> 15" and "set c \<subseteq> set xs"
proof -
  from assms obtain k where c: "c = take 15 (drop (k * 15) xs)"
    by (auto simp: chunks_of_def MAX_CHUNK_SIZE_def)
  show "length c \<le> 15" by (simp add: c)
  have "set c \<subseteq> set (drop (k * 15) xs)" unfolding c by (rule set_take_subset)
  also have "\<dots> \<subseteq> set xs" by (rule set_drop_subset)
  finally show "set c \<subseteq> set xs" .
qed

lemma chunks_of_not_empty: "xs \<noteq> [] \<Longrightarrow> chunks_of xs \<noteq> []"
proof -
  assume "xs \<noteq> []"
  then have "0 < length xs" by simp
  then have "0 < (length xs + 14) div 15" by arith
  then show ?thesis by (simp add: chunks_of_def MAX_CHUNK_SIZE_def)
qed

lemma encode_chunks_decode:
  assumes h: "\<forall>v. h = Some v \<longrightarrow> 0 \<le> v \<and> v \<le> 255"
    and y: "\<forall>v. y = Some v \<longrightarrow> 1770 \<le> v \<and> v \<le> 2025"
  shows "\<forall>c \<in> set cs. length c \<le> 15 \<and> (\<forall>p \<in> set c. 0 \<le> p \<and> p < 2 ^ 32) \<Longrightarrow>
         \<exists>bss. encode_chunks h y cs = Inr bss \<and> list_all complete_record bss \<and>
           (bss = [] \<longleftrightarrow> cs = []) \<and>
           map (\<lambda>f. decode_record (hd f) (tl f)) bss =
             map (\<lambda>c. \<lparr>isbn_positions = c, holdings_count = h, year = y\<rparr>) cs"
proof (induction cs)
  case Nil
  then show ?case by simp
next
  case (Cons c cs)
  then have c: "length c \<le> 15" "\<forall>p \<in> set c. 0 \<le> p \<and> p < 2 ^ 32" by simp_all
  from encode_chunk_decodes [OF c(2) c(1) h y] obtain bs where
    bs: "encode_chunk h y c = Inr bs" "complete_record bs"
      "decode_record (hd bs) (tl bs) = \<lparr>isbn_positions = c, holdings_count = h, year = y\<rparr>"
    by blast
  from Cons obtain bss where
    bss: "encode_chunks h y cs = Inr bss" "list_all complete_record bss"
      "map (\<lambda>f. decode_record (hd f) (tl f)) bss =
         map (\<lambda>c. \<lparr>isbn_positions = c, holdings_count = h, year = y\<rparr>) cs"
    by auto
  have "encode_chunks h y (c # cs) = Inr (bs # bss)" by (simp add: bs(1) bss(1))
  with bs bss show ?case by simp
qed

text \<open>
  Claim C1. For a finite, non-empty set \<open>P\<close> of positions in \<open>[0, 2^32)\<close>, optional
  holdings \<open>h\<close> in \<open>[0, 255]\<close> and optional year \<open>y\<close> in \<open>[1770, 2025]\<close>, at least one of
  them present, the encoder returns bytes (they are what \<open>_create_bytes\<close> returns for a
  handler whose ISBN strings flush, without a \<open>ValueError\<close>, to the positions \<open>P\<close> and
  whose holdings and year are \<open>h\<close> and \<open>y\<close>), and \<open>decode_stream\<close> decodes them without an error into records of
  at most 15 positions each, every one carrying \<open>h\<close> and \<open>y\<close>, whose positions
  concatenated are \<open>P\<close> in ascending order.
\<close>

theorem codec_round_trip:
  assumes "finite P" and "P \<noteq> {}"
    and "\<forall>p \<in> P. 0 \<le> p \<and> p < 2 ^ 32"
    and "\<forall>v. h = Some v \<longrightarrow> 0 \<le> v \<and> v \<le> 255"
    and "\<forall>v. y = Some v \<longrightarrow> 1770 \<le> v \<and> v \<le> 2025"
    and "h \<noteq> None \<or> y \<noteq> None"
  shows "\<exists>bs decoded. encode_positions P h y = Inr (Some bs) \<and>
           (\<forall>self. self_isbns self \<noteq> {} \<and> flush_positions (self_isbns self) = Inr P \<and>
                   self_holdings_count self = h \<and> self_year self = y \<longrightarrow>
                   create_bytes self = Inr (Some bs)) \<and>
           decode_stream bs = (decoded, None) \<and>
           (\<forall>r \<in> set decoded. length (isbn_positions r) \<le> 15 \<and>
                                holdings_count r = h \<and> year r = y) \<and>
           concat (map isbn_positions decoded) = sorted_list_of_set P"
proof -
  define xs where "xs = sorted_list_of_set P"
  have set_xs: "set xs = P" and ne: "xs \<noteq> []"
    using assms(1,2) by (simp_all add: xs_def)
  have "\<forall>c \<in> set (chunks_of xs). length c \<le> 15 \<and> (\<forall>p \<in> set c. 0 \<le> p \<and> p < 2 ^ 32)"
    using chunks_of_chunk [of _ xs] assms(3) set_xs by blast
  from encode_chunks_decode [OF assms(4,5) this] obtain bss where
    bss: "encode_chunks h y (chunks_of xs) = Inr bss" "list_all complete_record bss"
      "bss = [] \<longleftrightarrow> chunks_of xs = []"
      "map (\<lambda>f. decode_record (hd f) (tl f)) bss =
         map (\<lambda>c. \<lparr>isbn_positions = c, holdings_count = h, year = y\<rparr>) (chunks_of xs)"
    by blast
  define decoded where
    "decoded = map (\<lambda>c. \<lparr>isbn_positions = c, holdings_count = h, year = y\<rparr>) (chunks_of xs)"
  have "bss \<noteq> []" using bss(3) chunks_of_not_empty [OF ne] by simp
  then have enc: "encode_positions P h y = Inr (Some (concat bss))"
    using ne assms(6) by (simp add: encode_positions_def xs_def [symmetric] bss(1))
  have dec: "decode_stream (concat bss) = (decoded, None)"
    using decode_stream_records [OF bss(2), of "[]"] by (simp add: bss(4) decoded_def)
  have each: "\<forall>r \<in> set decoded. length (isbn_positions r) \<le> 15 \<and>
                                holdings_count r = h \<and> year r = y"
    using chunks_of_chunk(1) [of _ xs] by (auto simp: decoded_def)
  have "map isbn_positions decoded = chunks_of xs"
    by (simp add: decoded_def comp_def)
  then have cat: "concat (map isbn_positions decoded) = sorted_list_of_set P"
    by (simp add: concat_chunks_of xs_def)
  have cb: "\<forall>self. self_isbns self \<noteq> {} \<and> flush_positions (self_isbns self) = Inr P \<and>
                   self_holdings_count self = h \<and> self_year self = y \<longrightarrow>
                   create_bytes self = Inr (Some (concat bss))"
    using enc by (auto simp: create_bytes_def)
  from enc cb dec each cat show ?thesis by blast
qed

text \<open>
  The positions 1000 and 2000 with holdings 42 and year 2020 are one chunk of eleven
  bytes, which decodes to both positions in order.
\<close>

lemma encode_two_positions:
  "encode_positions {1000, 2000} (Some 42) (Some 2020) =
     Inr (Some [0xC2, 42, 5, 0, 0, 3, 232, 0, 0, 7, 208])"
  by code_simp

theorem codec_round_trip_witness:
  "(\<exists>decoded. decode_stream [0xC2, 42, 5, 0, 0, 3, 232, 0, 0, 7, 208] = (decoded, None) \<and>
      concat (map isbn_positions decoded) = [1000, 2000] \<and>
      list_all (\<lambda>r. holdings_count r = Some 42 \<and> year r = Some 2020) decoded)"
proof -
  have "\<exists>bs decoded. encode_positions {1000, 2000} (Some 42) (Some 2020) = Inr (Some bs) \<and>
           (\<forall>self. self_isbns self \<noteq> {} \<and> flush_positions (self_isbns self) = Inr {1000, 2000} \<and>
                   self_holdings_count self = Some 42 \<and> self_year self = Some 2020 \<longrightarrow>
                   create_bytes self = Inr (Some bs)) \<and>
           decode_stream bs = (decoded, None) \<and>
           (\<forall>r \<in> set decoded. length (isbn_positions r) \<le> 15 \<and>
                                holdings_count r = Some 42 \<and> year r = Some 2020) \<and>
           concat (map isbn_positions decoded) = sorted_list_of_set {1000, 2000}"
    by (rule codec_round_trip) simp_all
  then show ?thesis
    unfolding encode_two_positions by (auto simp: list_all_iff)
qed

section \<open>Merging the lines of one book\<close>

lemma process_same_id:
  assumes "oclc_number l = Some oid"
    and "self_current_id st = None \<or> self_current_id st = Some oid"
  shows "process st l = (merge_record_data (st\<lparr>self_current_id := Some oid\<rparr>) l, Inr None)"
proof (cases "self_current_id st")
  case None
  then show ?thesis using assms(1) by (simp add: process_def)
next
  case (Some c)
  with assms(2) have c: "self_current_id st = Some oid" by simp
  then have same: "st\<lparr>self_current_id := Some oid\<rparr> = st" by simp
  show ?thesis unfolding same using assms(1) c by (simp add: process_def)
qed

lemma merge_current_id [simp]:
  "self_current_id (merge_record_data st l) = self_current_id st"
  by (simp add: merge_record_data_def)

lemma merge_holdings_count:
  "self_holdings_count (merge_record_data st l) =
     update_holdings (update_holdings (self_holdings_count st) (totalHoldingCount l))
       (total_holding_count l)"
  by (simp add: merge_record_data_def)

lemma merge_year: "self_year (merge_record_data st l) = update_year (self_year st) (line_year l)"
  by (simp add: merge_record_data_def)

lemma foldl_merge_current_id [simp]:
  "self_current_id (foldl merge_record_data st ls) = self_current_id st"
  by (induction ls arbitrary: st) simp_all

lemma feed_same_id:
  assumes "\<forall>l \<in> set ls. oclc_number l = Some oid"
    and "self_current_id st = Some oid"
  shows "feed st (ls @ rest) =
           (fst (feed (foldl merge_record_data st ls) rest),
            replicate (length ls) (Inr None) @ snd (feed (foldl merge_record_data st ls) rest))"
  using assms
proof (induction ls arbitrary: st)
  case Nil
  then show ?case by simp
next
  case (Cons l ls)
  have l: "oclc_number l = Some oid" using Cons.prems(1) by simp
  have same: "st\<lparr>self_current_id := Some oid\<rparr> = st" using Cons.prems(2) by simp
  have p: "process st l = (merge_record_data st l, Inr None)"
    using process_same_id [OF l, of st] Cons.prems(2) same by simp
  have "self_current_id (merge_record_data st l) = Some oid" using Cons.prems(2) by simp
  from Cons.IH [OF _ this] Cons.prems(1)
  show ?case by (simp add: p split: prod.splits)
qed

lemma flush_after_merge:
  assumes "self_current_id st \<noteq> None"
  shows "snd (feed st [empty_line]) = [create_bytes st]"
  using assms
  by (cases "create_bytes st") (simp_all add: process_def empty_line_def)

lemma foldl_merge_isbns:
  "self_isbns (foldl merge_record_data st ls) = self_isbns st \<union> merged_isbns ls"
proof (induction ls rule: rev_induct)
  case Nil
  then show ?case by (simp add: merged_isbns_def)
next
  case (snoc l ls)
  then show ?case by (auto simp: merged_isbns_def merge_record_data_def)
qed

lemma finite_holdings_values: "finite (holdings_values ls)"
  by (simp add: holdings_values_def)

lemma finite_year_values: "finite (year_values ls)"
  unfolding year_values_def
proof (rule finite_UN_I)
  show "finite (set ls)" by simp
next
  fix l
  have "{n \<in> set_option (line_year l). n \<noteq> 0} \<subseteq> set_option (line_year l)" by blast
  moreover have "finite (set_option (line_year l))" by (cases "line_year l") simp_all
  ultimately show "finite {n \<in> set_option (line_year l). n \<noteq> 0}" by (rule finite_subset)
qed

lemma update_holdings_Max:
  assumes "finite H"
  shows "update_holdings (if H = {} then None else Some (Max H)) field =
           (if H \<union> set_option field = {} then None else Some (Max (H \<union> set_option field)))"
proof (cases field)
  case None
  then show ?thesis by (simp add: update_holdings_def)
next
  case (Some v)
  show ?thesis
  proof (cases "H = {}")
    case True
    then show ?thesis by (simp add: update_holdings_def Some)
  next
    case False
    with assms have "Max (insert v H) = max v (Max H)" by simp
    then show ?thesis using False by (simp add: update_holdings_def Some max.commute)
  qed
qed

lemma update_year_Min:
  assumes "finite Y"
  shows "update_year (if Y = {} then None else Some (Min Y)) new_year =
           (if Y \<union> {n \<in> set_option new_year. n \<noteq> 0} = {} then None
            else Some (Min (Y \<union> {n \<in> set_option new_year. n \<noteq> 0})))"
proof (cases new_year)
  case None
  then show ?thesis by (simp add: update_year_def)
next
  case (Some n)
  show ?thesis
  proof (cases "n = 0")
    case True
    then show ?thesis by (simp add: update_year_def Some)
  next
    case nz: False
    then have s: "{m \<in> set_option new_year. m \<noteq> 0} = {n}" by (auto simp: Some)
    show ?thesis
    proof (cases "Y = {}")
      case True
      then show ?thesis using nz unfolding s by (simp add: update_year_def Some)
    next
      case False
      with assms have "Min (insert n Y) = min n (Min Y)" by simp
      then show ?thesis using False nz unfolding s
        by (simp add: update_year_def Some min.commute)
    qed
  qed
qed

lemma foldl_merge_holdings:
  assumes "self_holdings_count st = None"
  shows "self_holdings_count (foldl merge_record_data st ls) = merged_holdings ls"
proof (induction ls rule: rev_induct)
  case Nil
  then show ?case using assms by (simp add: merged_holdings_def holdings_values_def)
next
  case (snoc l ls)
  let ?H = "holdings_values ls"
  have fin: "finite ?H" by (rule finite_holdings_values)
  have fin2: "finite (?H \<union> set_option (totalHoldingCount l))" using fin by simp
  have H: "holdings_values (ls @ [l]) =
           ?H \<union> set_option (totalHoldingCount l) \<union> set_option (total_holding_count l)"
    by (auto simp: holdings_values_def)
  have "self_holdings_count (foldl merge_record_data st (ls @ [l])) =
        update_holdings (update_holdings (merged_holdings ls) (totalHoldingCount l))
          (total_holding_count l)"
    using snoc by (simp add: merge_holdings_count)
  also have "\<dots> = merged_holdings (ls @ [l])"
    unfolding merged_holdings_def [of ls] update_holdings_Max [OF fin]
      update_holdings_Max [OF fin2] merged_holdings_def [of "ls @ [l]"] H ..
  finally show ?case .
qed

lemma foldl_merge_year:
  assumes "self_year st = None"
  shows "self_year (foldl merge_record_data st ls) = merged_year ls"
proof (induction ls rule: rev_induct)
  case Nil
  then show ?case using assms by (simp add: merged_year_def year_values_def)
next
  case (snoc l ls)
  let ?Y = "year_values ls"
  have fin: "finite ?Y" by (rule finite_year_values)
  have Y: "year_values (ls @ [l]) = ?Y \<union> {n \<in> set_option (line_year l). n \<noteq> 0}"
    by (auto simp: year_values_def)
  have "self_year (foldl merge_record_data st (ls @ [l])) =
        update_year (merged_year ls) (line_year l)"
    using snoc by (simp add: merge_year)
  also have "\<dots> = merged_year (ls @ [l])"
    unfolding merged_year_def [of ls] update_year_Min [OF fin]
      merged_year_def [of "ls @ [l]"] Y ..
  finally show ?case .
qed

lemma feed_and_flush_group:
  assumes "\<forall>l \<in> set ls. oclc_number l = Some oid"
  shows "feed_and_flush ls = replicate (length ls) (Inr None) @ [merged_bytes ls]"
proof (cases ls)
  case Nil
  then show ?thesis
    by (simp add: feed_and_flush_def init_def process_def empty_line_def merged_bytes_def
        merged_isbns_def)
next
  case (Cons l ls')
  define st0 where "st0 = init\<lparr>self_current_id := Some oid\<rparr>"
  define st where "st = foldl merge_record_data st0 ls"
  have l: "oclc_number l = Some oid" using assms Cons by simp
  have first: "process init l = (merge_record_data st0 l, Inr None)"
    unfolding st0_def by (rule process_same_id [OF l]) (simp add: init_def)
  have rest: "\<forall>l \<in> set ls'. oclc_number l = Some oid" using assms Cons by simp
  have cur: "self_current_id (merge_record_data st0 l) = Some oid" by (simp add: st0_def)
  have st: "st = foldl merge_record_data (merge_record_data st0 l) ls'"
    by (simp add: st_def Cons)
  have cur_st: "self_current_id st \<noteq> None" by (simp add: st_def st0_def)
  have "feed (merge_record_data st0 l) (ls' @ [empty_line]) =
          (fst (feed st [empty_line]), replicate (length ls') (Inr None) @ snd (feed st [empty_line]))"
    unfolding st by (rule feed_same_id [OF rest cur])
  then have "feed_and_flush ls =
        Inr None # replicate (length ls') (Inr None) @ snd (feed st [empty_line])"
    by (simp add: feed_and_flush_def Cons first)
  also have "\<dots> = replicate (length ls) (Inr None) @ [create_bytes st]"
    unfolding flush_after_merge [OF cur_st] by (simp add: Cons)
  also have "create_bytes st = merged_bytes ls"
  proof -
    have i: "self_isbns st = merged_isbns ls"
      by (simp add: st_def foldl_merge_isbns st0_def init_def)
    have h: "self_holdings_count st = merged_holdings ls"
      unfolding st_def by (rule foldl_merge_holdings) (simp add: st0_def init_def)
    have y: "self_year st = merged_year ls"
      unfolding st_def by (rule foldl_merge_year) (simp add: st0_def init_def)
    show ?thesis unfolding create_bytes_def merged_bytes_def i h y ..
  qed
  finally show ?thesis .
qed

text \<open>
  Claim C7. The lines of one book (the same OCLC id on every line), fed to a fresh
  handler in any order and followed by the flush, give the same results: no output
  while the lines are fed, and at the flush the encoding of the union of the lines' ISBN
  strings with the maximum of the holdings fields and the minimum of the extracted
  years, or in every order the \<open>ValueError\<close> that checking one of the strings raises.
\<close>

theorem merge_order_invariant:
  assumes "mset lines' = mset lines"
    and "\<forall>l \<in> set lines. oclc_number l = Some oid"
  shows "feed_and_flush lines' = feed_and_flush lines \<and>
         feed_and_flush lines = replicate (length lines) (Inr None) @ [merged_bytes lines]"
proof -
  have s: "set lines' = set lines" using assms(1) by (rule mset_eq_setD)
  have n: "length lines' = length lines" using assms(1) by (rule mset_eq_length)
  have a: "feed_and_flush lines = replicate (length lines) (Inr None) @ [merged_bytes lines]"
    by (rule feed_and_flush_group [OF assms(2)])
  have "\<forall>l \<in> set lines'. oclc_number l = Some oid" using assms(2) s by simp
  then have b: "feed_and_flush lines' = replicate (length lines') (Inr None) @ [merged_bytes lines']"
    by (rule feed_and_flush_group)
  have "merged_bytes lines' = merged_bytes lines"
    by (simp only: merged_bytes_def merged_isbns_def merged_holdings_def holdings_values_def
        merged_year_def year_values_def s)
  with a b n show ?thesis by simp
qed

text \<open>
  Two lines of the book \<open>123\<close>: one with an ISBN and holdings 5, one with holdings 10
  and the publication date \<open>2000\<close>. Fed in either order they flush to the record
  \<open>C1 0A 19 00 00 00 01\<close>: holdings 10, year byte \<open>2025 - 2000\<close>, position 1.
\<close>

lemma feed_second_first:
  "feed_and_flush
     [\<lparr>oclc_number = Some ''123'', isbns = None, isbn13 = None,
       totalHoldingCount = Some 10, total_holding_count = None, machineReadableDate = None,
       publicationDate = Some ''2000'', date = None\<rparr>,
      \<lparr>oclc_number = Some ''123'', isbns = Some [''9780000000019''], isbn13 = None,
       totalHoldingCount = Some 5, total_holding_count = None, machineReadableDate = None,
       publicationDate = None, date = None\<rparr>] =
   [Inr None, Inr None, Inr (Some [0xC1, 10, 25, 0, 0, 0, 1])]"
  by code_simp

theorem merge_order_invariant_witness:
  "feed_and_flush
     [\<lparr>oclc_number = Some ''123'', isbns = Some [''9780000000019''], isbn13 = None,
       totalHoldingCount = Some 5, total_holding_count = None, machineReadableDate = None,
       publicationDate = None, date = None\<rparr>,
      \<lparr>oclc_number = Some ''123'', isbns = None, isbn13 = None,
       totalHoldingCount = Some 10, total_holding_count = None, machineReadableDate = None,
       publicationDate = Some ''2000'', date = None\<rparr>] =
   [Inr None, Inr None, Inr (Some [0xC1, 10, 25, 0, 0, 0, 1])]"
proof -
  let ?a = "\<lparr>oclc_number = Some ''123'', isbns = Some [''9780000000019''], isbn13 = None,
       totalHoldingCount = Some 5, total_holding_count = None, machineReadableDate = None,
       publicationDate = None, date = None\<rparr>"
  let ?b = "\<lparr>oclc_number = Some ''123'', isbns = None, isbn13 = None,
       totalHoldingCount = Some 10, total_holding_count = None, machineReadableDate = None,
       publicationDate = Some ''2000'', date = None\<rparr>"
  have "mset [?a, ?b] = mset [?b, ?a]" by (simp add: add_mset_commute)
  moreover have "\<forall>l \<in> set [?b, ?a]. oclc_number l = Some ''123''" by simp
  ultimately have "feed_and_flush [?a, ?b] = feed_and_flush [?b, ?a]"
    using merge_order_invariant [of "[?a, ?b]" "[?b, ?a]" "''123''"] by blast
  then show ?thesis unfolding feed_second_first .
qed

text \<open>
  A group with a ten-character string that begins with the superscript \<open>U+00B2\<close>: the
  string passes the \<open>isdigit\<close> guard of \<open>verify_isbn\<close>, \<open>int\<close> raises, and the flush ends
  with the \<open>ValueError\<close>, in either order of the lines.
\<close>

lemma feed_superscript:
  "feed_and_flush
     [\<lparr>oclc_number = Some ''123'', isbns = Some [CHR 0xB2 # ''306406152''], isbn13 = None,
       totalHoldingCount = Some 1, total_holding_count = None, machineReadableDate = None,
       publicationDate = None, date = None\<rparr>,
      \<lparr>oclc_number = Some ''123'', isbns = Some [''9780000000019''], isbn13 = None,
       totalHoldingCount = None, total_holding_count = None, machineReadableDate = None,
       publicationDate = None, date = None\<rparr>] =
   [Inr None, Inr None, Inl InvalidLiteral]"
  by code_simp

lemma feed_superscript_last:
  "feed_and_flush
     [\<lparr>oclc_number = Some ''123'', isbns = Some [''9780000000019''], isbn13 = None,
       totalHoldingCount = None, total_holding_count = None, machineReadableDate = None,
       publicationDate = None, date = None\<rparr>,
      \<lparr>oclc_number = Some ''123'', isbns = Some [CHR 0xB2 # ''306406152''], isbn13 = None,
       totalHoldingCount = Some 1, total_holding_count = None, machineReadableDate = None,
       publicationDate = None, date = None\<rparr>] =
   [Inr None, Inr None, Inl InvalidLiteral]"
  by code_simp

section \<open>The runs decoder records every present position once\<close>











section \<open>\<open>get_pos\<close> and the canvas\<close>

subsection \<open>Rounding is monotone\<close>

lemma round_half_even_cases:
  "round_half_even r = \<lfloor>r\<rfloor> \<or> round_half_even r = \<lfloor>r\<rfloor> + 1"
  by (simp add: round_half_even_def Let_def)

lemma round_half_even_mono:
  assumes "a \<le> b"
  shows "round_half_even a \<le> round_half_even b"
proof (cases "\<lfloor>a\<rfloor> = \<lfloor>b\<rfloor>")
  case True
  then show ?thesis using assms by (auto simp: round_half_even_def Let_def)
next
  case False
  moreover have "\<lfloor>a\<rfloor> \<le> \<lfloor>b\<rfloor>" using assms by (rule floor_mono)
  ultimately have "\<lfloor>a\<rfloor> + 1 \<le> \<lfloor>b\<rfloor>" by simp
  then show ?thesis
    using round_half_even_cases [of a] round_half_even_cases [of b] by auto
qed

lemma round_half_even_of_int: "round_half_even (of_int k) = k"
  by (simp add: round_half_even_def)

lemma power_int_nat: "0 \<le> k \<Longrightarrow> (2::rat) powi k = of_int (2 ^ nat k)"
  by (simp add: power_int_def)

lemma expo_bounds:
  assumes "0 < x"
  shows "2 powi expo x \<le> x" and "x < 2 powi (expo x + 1)"
proof -
  obtain p q where pq: "quotient_of x = (p, q)" by (cases "quotient_of x")
  have q: "0 < q" using pq by (rule quotient_of_denom_pos)
  have x: "x = of_int p / of_int q" using pq by (rule quotient_of_div)
  have p: "0 < p" using assms q by (simp add: x zero_less_divide_iff)
  define bp where "bp = bitlen p"
  define bq where "bq = bitlen q"
  have bp1: "1 \<le> bp" using p bitlen_eq_zero_iff [of p] bitlen_nonneg [of p] by (simp add: bp_def)
  have bq1: "1 \<le> bq" using q bitlen_eq_zero_iff [of q] bitlen_nonneg [of q] by (simp add: bq_def)
  have pl: "(2::rat) powi (bp - 1) \<le> of_int p"
    using bitlen_bounds [OF p] bp1 unfolding bp_def [symmetric]
    by (simp only: power_int_nat of_int_le_iff)
  have pu: "of_int p < (2::rat) powi bp"
    using bitlen_bounds [OF p] bp1 unfolding bp_def [symmetric]
    by (simp only: power_int_nat of_int_less_iff)
  have ql: "(2::rat) powi (bq - 1) \<le> of_int q"
    using bitlen_bounds [OF q] bq1 unfolding bq_def [symmetric]
    by (simp only: power_int_nat of_int_le_iff)
  have qu: "of_int q < (2::rat) powi bq"
    using bitlen_bounds [OF q] bq1 unfolding bq_def [symmetric]
    by (simp only: power_int_nat of_int_less_iff)
  have pos: "0 < (2::rat) powi k" for k by simp
  have "x < 2 powi bp / 2 powi (bq - 1)"
    unfolding x using p pu pos [of "bq - 1"] ql by (intro frac_less) simp_all
  also have "\<dots> = 2 powi (bp - bq + 1)"
    using power_int_diff [of "2::rat" bp "bq - 1"] by (simp add: algebra_simps)
  finally have up: "x < 2 powi (bp - bq + 1)" .
  have "2 powi (bp - 1) / 2 powi bq < x"
    unfolding x using pl pos [of "bp - 1"] q qu by (intro frac_less2) simp_all
  moreover have "2 powi (bp - 1) / 2 powi bq = (2::rat) powi (bp - bq - 1)"
    using power_int_diff [of "2::rat" "bp - 1" bq] by (simp add: algebra_simps)
  ultimately have low: "2 powi (bp - bq - 1) < x" by simp
  have e: "expo x = (if 2 powi (bp - bq) \<le> x then bp - bq else bp - bq - 1)"
    by (simp add: expo_def pq bp_def bq_def Let_def)
  show "2 powi expo x \<le> x" using low by (simp add: e)
  show "x < 2 powi (expo x + 1)" using up by (simp add: e)
qed

lemma expo_mono:
  assumes "0 < u" and "u \<le> v"
  shows "expo u \<le> expo v"
proof (rule ccontr)
  assume "\<not> expo u \<le> expo v"
  then have "expo v + 1 \<le> expo u" by simp
  then have "(2::rat) powi (expo v + 1) \<le> 2 powi expo u"
    by (intro power_int_increasing) simp_all
  moreover have "v < 2 powi (expo v + 1)" using assms by (intro expo_bounds) simp
  moreover have "2 powi expo u \<le> u" using assms(1) by (rule expo_bounds)
  ultimately show False using assms(2) by simp
qed

lemma round_double_pos:
  assumes "0 < x"
  shows "round_double x =
           of_int (round_half_even (x / 2 powi max (expo x - 52) (- 1074))) *
             2 powi max (expo x - 52) (- 1074)"
  using assms by (simp add: round_double_def Let_def)

lemma round_double_0: "round_double 0 = 0"
  by (simp add: round_double_def)

lemma round_double_nonneg:
  assumes "0 \<le> x"
  shows "0 \<le> round_double x"
proof (cases "x = 0")
  case True
  then show ?thesis by (simp add: round_double_0)
next
  case False
  with assms have x: "0 < x" by simp
  have "round_half_even 0 \<le> round_half_even (x / 2 powi max (expo x - 52) (- 1074))"
    using x by (intro round_half_even_mono) simp
  then have "0 \<le> round_half_even (x / 2 powi max (expo x - 52) (- 1074))"
    using round_half_even_of_int [of 0] by simp
  then show ?thesis unfolding round_double_pos [OF x] by simp
qed

lemma round_double_mono_pos:
  assumes "0 < u" and "u \<le> v"
  shows "round_double u \<le> round_double v"
proof -
  have v: "0 < v" using assms by simp
  define gu where "gu = max (expo u - 52) (- 1074)"
  define gv where "gv = max (expo v - 52) (- 1074)"
  have ru: "round_double u = of_int (round_half_even (u / 2 powi gu)) * 2 powi gu"
    unfolding gu_def by (rule round_double_pos [OF assms(1)])
  have rv: "round_double v = of_int (round_half_even (v / 2 powi gv)) * 2 powi gv"
    unfolding gv_def by (rule round_double_pos [OF v])
  have e: "expo u \<le> expo v" using assms by (rule expo_mono)
  then have g: "gu \<le> gv" by (simp add: gu_def gv_def)
  show ?thesis
  proof (cases "gu = gv")
    case True
    have "u / 2 powi gv \<le> v / 2 powi gv" using assms(2) by (simp add: divide_right_mono)
    then have "round_half_even (u / 2 powi gv) \<le> round_half_even (v / 2 powi gv)"
      by (rule round_half_even_mono)
    then have "(of_int (round_half_even (u / 2 powi gv)) :: rat) \<le>
        of_int (round_half_even (v / 2 powi gv))" by simp
    then show ?thesis unfolding ru rv True by (simp add: mult_right_mono)
  next
    case False
    with g have lt: "gu < gv" by simp
    then have gv52: "gv = expo v - 52" and elt: "expo u < expo v"
      by (simp_all add: gu_def gv_def max_def split: if_splits)
    define K :: rat where "K = 2 powi expo v"
    have "K / 2 powi gv = 2 powi (expo v - gv)"
      unfolding K_def using power_int_diff [of "2::rat" "expo v" gv] by simp
    also have "\<dots> = of_int (2 ^ 52)" unfolding gv52 by simp
    finally have Kv: "K / 2 powi gv = of_int (2 ^ 52)" .
    have "K \<le> v" unfolding K_def using v by (rule expo_bounds)
    then have "K / 2 powi gv \<le> v / 2 powi gv" by (simp add: divide_right_mono)
    then have "round_half_even (K / 2 powi gv) \<le> round_half_even (v / 2 powi gv)"
      by (rule round_half_even_mono)
    then have "(2 ^ 52 :: int) \<le> round_half_even (v / 2 powi gv)"
      unfolding Kv round_half_even_of_int .
    then have "(of_int (2 ^ 52) :: rat) \<le> of_int (round_half_even (v / 2 powi gv))"
      by (simp only: of_int_le_iff)
    then have "of_int (2 ^ 52) * 2 powi gv \<le> round_double v"
      unfolding rv by (simp add: mult_right_mono)
    moreover have "of_int (2 ^ 52) * 2 powi gv = K"
      using Kv by (simp add: field_simps)
    ultimately have lower: "K \<le> round_double v" by simp
    have d: "0 \<le> expo v - gu" using lt by (simp add: gv52)
    have "K / 2 powi gu = 2 powi (expo v - gu)"
      unfolding K_def using power_int_diff [of "2::rat" "expo v" gu] by simp
    also have "\<dots> = of_int (2 ^ nat (expo v - gu))" using d by (rule power_int_nat)
    finally have Ku: "K / 2 powi gu = of_int (2 ^ nat (expo v - gu))" .
    have "expo u + 1 \<le> expo v" using elt by simp
    then have "(2::rat) powi (expo u + 1) \<le> K"
      unfolding K_def by (intro power_int_increasing) simp_all
    moreover have "u < 2 powi (expo u + 1)" using assms(1) by (rule expo_bounds)
    ultimately have "u \<le> K" by simp
    then have "u / 2 powi gu \<le> K / 2 powi gu" by (simp add: divide_right_mono)
    then have "round_half_even (u / 2 powi gu) \<le> round_half_even (K / 2 powi gu)"
      by (rule round_half_even_mono)
    then have "round_half_even (u / 2 powi gu) \<le> 2 ^ nat (expo v - gu)"
      unfolding Ku round_half_even_of_int .
    then have "(of_int (round_half_even (u / 2 powi gu)) :: rat) \<le>
        of_int (2 ^ nat (expo v - gu))"
      by (simp only: of_int_le_iff)
    then have "round_double u \<le> of_int (2 ^ nat (expo v - gu)) * 2 powi gu"
      unfolding ru by (simp add: mult_right_mono)
    moreover have "of_int (2 ^ nat (expo v - gu)) * 2 powi gu = K"
      using Ku by (simp add: field_simps)
    ultimately have "round_double u \<le> K" by simp
    with lower show ?thesis by simp
  qed
qed

lemma round_double_mono:
  assumes "0 \<le> u" and "u \<le> v"
  shows "round_double u \<le> round_double v"
proof (cases "u = 0")
  case True
  then show ?thesis using assms round_double_nonneg [of v] by (simp add: round_double_0)
next
  case False
  with assms(1) have "0 < u" by simp
  then show ?thesis using assms(2) by (rule round_double_mono_pos)
qed

lemma round_double_add_mono:
  assumes "0 \<le> a" "a \<le> a'" "0 \<le> b" "b \<le> b'"
  shows "round_double (a + b) \<le> round_double (a' + b')"
  using assms by (intro round_double_mono) simp_all

lemma round_double_mult_mono:
  assumes "0 \<le> a" "a \<le> a'" "0 \<le> b" "b \<le> b'"
  shows "round_double (a * b) \<le> round_double (a' * b')"
  using assms by (intro round_double_mono mult_mono) simp_all

lemma round_double_of_int_mono:
  assumes "0 \<le> k" "k \<le> k'"
  shows "round_double (of_int k) \<le> round_double (of_int k')"
  using assms by (intro round_double_mono) simp_all

subsection \<open>The thirteen digits\<close>

lemma digit_value_range:
  assumes "is_digit c"
  shows "0 \<le> digit_value c" and "digit_value c \<le> 9"
proof -
  from assms have "c = CHR ''0'' \<or> c = CHR ''1'' \<or> c = CHR ''2'' \<or> c = CHR ''3'' \<or>
      c = CHR ''4'' \<or> c = CHR ''5'' \<or> c = CHR ''6'' \<or> c = CHR ''7'' \<or> c = CHR ''8'' \<or>
      c = CHR ''9''"
    by (simp add: is_digit_def)
  then show "0 \<le> digit_value c" and "digit_value c \<le> 9"
    by (auto simp: digit_value_def)
qed

lemma small_digit_cases:
  "0 \<le> d \<Longrightarrow> d \<le> 9 \<Longrightarrow> d \<in> {0, 1, 2, 3, 4, 5, 6, 7, 8, 9 :: int}"
  by (simp only: insert_iff empty_iff) arith

lemma fold_bounds:
  assumes "0 \<le> d" "d \<le> 9"
  shows "0 \<le> d * 10000 mod 50000" and "d * 10000 mod 50000 \<le> 40000"
    and "0 \<le> d * 10000 div 50000" and "d * 10000 div 50000 \<le> (1::int)"
  using small_digit_cases [OF assms] by auto

text \<open>The first two digits: the only step with \<open>n = 4\<close>, on integers.\<close>

lemma get_pos_first_pair:
  assumes "is_digit c0" "is_digit c1"
  shows "get_pos (c0 # c1 # rest) =
           get_pos_loop (PyInt (digit_value c1 * 10000 mod 50000))
             (PyInt (2 * (digit_value c0 * 10000) + digit_value c1 * 10000 div 50000))
             3 True rest"
  using assms by (simp add: get_pos_def int_of_char_def py_pow10_def Let_def)

text \<open>The digits with \<open>n\<close> from 3 down to 0 are added as integers; the last three, with
  \<open>n = -1\<close> and \<open>n = -2\<close>, as floats.\<close>

lemma get_pos_tail:
  assumes "list_all is_digit [c2, c3, c4, c5, c6, c7, c8, c9, c10, c11, c12]"
  shows "get_pos_loop (PyInt X) (PyInt Y) 3 True [c2, c3, c4, c5, c6, c7, c8, c9, c10, c11, c12] =
           Inr (PyFloat (round_double
                  (round_double (of_int (X + digit_value c3 * 1000 + digit_value c5 * 100
                     + digit_value c7 * 10 + digit_value c9))
                   + round_double (round_double (of_int (digit_value c11))
                       * round_double (10 powi (- 1))))),
                PyFloat (round_double
                  (round_double
                     (round_double (of_int (Y + digit_value c2 * 1000 + digit_value c4 * 100
                        + digit_value c6 * 10 + digit_value c8))
                      + round_double (round_double (of_int (digit_value c10))
                          * round_double (10 powi (- 1))))
                   + round_double (round_double (of_int (digit_value c12))
                       * round_double (10 powi (- 2))))))"
  using assms by (simp add: int_of_char_def py_pow10_def Let_def)

lemma length_13:
  "length s = 13 \<Longrightarrow>
   \<exists>c0 c1 c2 c3 c4 c5 c6 c7 c8 c9 c10 c11 c12.
     s = [c0, c1, c2, c3, c4, c5, c6, c7, c8, c9, c10, c11, c12]"
  by (auto simp: eval_nat_numeral length_Suc_conv)

text \<open>The constants of the bounds, evaluated.\<close>

lemma tenth_nonneg: "0 \<le> round_double (10 powi (- 1))"
  by (rule round_double_nonneg) simp

lemma hundredth_nonneg: "0 \<le> round_double (10 powi (- 2))"
  by (rule round_double_nonneg) simp

lemma x_largest:
  "round_double (round_double (of_int 49999)
     + round_double (round_double (of_int 9) * round_double (10 powi (- 1)))) < 50000"
  by code_simp

lemma y_largest:
  "round_double
     (round_double (round_double (of_int 30000)
        + round_double (round_double (of_int 9) * round_double (10 powi (- 1))))
      + round_double (round_double (of_int 9) * round_double (10 powi (- 2)))) < 40000"
  by code_simp

lemma round_double_40000: "round_double 40000 = 40000"
  by code_simp

text \<open>A product \<open>digit * 10 ** n\<close> with a negative \<open>n\<close>.\<close>

lemma digit_term:
  assumes "is_digit c" and "0 \<le> t"
  shows "0 \<le> round_double (round_double (of_int (digit_value c)) * t)"
    and "round_double (round_double (of_int (digit_value c)) * t) \<le>
           round_double (round_double (of_int 9) * t)"
proof -
  have d: "0 \<le> round_double (of_int (digit_value c))"
    using digit_value_range(1) [OF assms(1)] by (intro round_double_nonneg) simp
  have d9: "round_double (of_int (digit_value c)) \<le> round_double (of_int 9)"
    using digit_value_range [OF assms(1)] by (intro round_double_of_int_mono) simp_all
  show "0 \<le> round_double (round_double (of_int (digit_value c)) * t)"
    by (rule round_double_nonneg [OF mult_nonneg_nonneg [OF d assms(2)]])
  show "round_double (round_double (of_int (digit_value c)) * t) \<le>
          round_double (round_double (of_int 9) * t)"
    by (rule round_double_mult_mono [OF d d9 assms(2) order_refl])
qed

text \<open>
  Claim C9 fails when the first digit is 2 or more: the first digit selects one of the
  two rows of the 10 by 2 layout, as the prefix digit of a normalised ISBN does (0 for
  978, 1 for 979). For the thirteen digits of an ISBN-13 beginning with 978, \<open>y\<close> is
  \<open>188001.0\<close>.
\<close>

theorem get_pos_counterexample:
  "length ''9780000000000'' = 13 \<and> list_all is_digit ''9780000000000'' \<and>
   get_pos ''9780000000000'' = Inr (PyFloat 20000, PyFloat 188001) \<and>
   \<not> ((188001 :: rat) < of_int HEIGHT)"
  by code_simp

text \<open>
  Claim C9, amended. For every string of 13 decimal digits, \<open>get_pos\<close> returns two
  floats \<open>(x, y)\<close> with \<open>0 \<le> x < 50000\<close> and \<open>0 \<le> y\<close>, and \<open>y < 40000\<close> exactly when the
  first digit is 0 or 1.
\<close>

theorem get_pos_on_canvas:
  assumes "length isbn = 13" and "list_all is_digit isbn"
  shows "\<exists>x y. get_pos isbn = Inr (PyFloat x, PyFloat y) \<and> 0 \<le> x \<and> x < of_int WIDTH \<and> 0 \<le> y \<and>
           (y < of_int HEIGHT \<longleftrightarrow> hd isbn = CHR ''0'' \<or> hd isbn = CHR ''1'')"
proof -
  from length_13 [OF assms(1)] obtain c0 c1 c2 c3 c4 c5 c6 c7 c8 c9 c10 c11 c12 where
    s: "isbn = [c0, c1, c2, c3, c4, c5, c6, c7, c8, c9, c10, c11, c12]" by blast
  have dg: "is_digit c0" "is_digit c1"
    and tl: "list_all is_digit [c2, c3, c4, c5, c6, c7, c8, c9, c10, c11, c12]"
    using assms(2) by (simp_all add: s)
  from tl have ds: "is_digit c2" "is_digit c3" "is_digit c4" "is_digit c5" "is_digit c6"
    "is_digit c7" "is_digit c8" "is_digit c9" "is_digit c10" "is_digit c11" "is_digit c12"
    by simp_all
  note r = digit_value_range
  have first: "digit_value c0 \<le> 1 \<longleftrightarrow> c0 = CHR ''0'' \<or> c0 = CHR ''1''"
    using dg(1) by (auto simp: is_digit_def digit_value_def)
  define X where "X = digit_value c1 * 10000 mod 50000"
  define Y where "Y = 2 * (digit_value c0 * 10000) + digit_value c1 * 10000 div 50000"
  define Xi where "Xi = X + digit_value c3 * 1000 + digit_value c5 * 100
                     + digit_value c7 * 10 + digit_value c9"
  define Yi where "Yi = Y + digit_value c2 * 1000 + digit_value c4 * 100
                        + digit_value c6 * 10 + digit_value c8"
  define tx where "tx = round_double (round_double (of_int (digit_value c11))
                       * round_double (10 powi (- 1)))"
  define ty where "ty = round_double (round_double (of_int (digit_value c10))
                          * round_double (10 powi (- 1)))"
  define tz where "tz = round_double (round_double (of_int (digit_value c12))
                       * round_double (10 powi (- 2)))"
  define x where "x = round_double (round_double (of_int Xi) + tx)"
  define y where "y = round_double (round_double (round_double (of_int Yi) + ty) + tz)"
  have g: "get_pos isbn = Inr (PyFloat x, PyFloat y)"
    unfolding s get_pos_first_pair [OF dg] X_def [symmetric] Y_def [symmetric]
      get_pos_tail [OF tl] x_def y_def tx_def ty_def tz_def Xi_def Yi_def ..
  from fold_bounds [OF r [OF dg(2)]]
  have X: "0 \<le> X" "X \<le> 40000" and Q: "0 \<le> digit_value c1 * 10000 div 50000"
    "digit_value c1 * 10000 div 50000 \<le> 1"
    by (simp_all add: X_def)
  have Xi: "0 \<le> Xi" "Xi \<le> 49999"
    using X r [OF ds(2)] r [OF ds(4)] r [OF ds(6)] r [OF ds(8)] by (simp_all add: Xi_def)
  have Y0: "0 \<le> Y" using Q r [OF dg(1)] by (simp add: Y_def)
  have Yi0: "Y \<le> Yi" "Yi \<le> Y + 9999"
    using r [OF ds(1)] r [OF ds(3)] r [OF ds(5)] r [OF ds(7)] by (simp_all add: Yi_def)
  have tx: "0 \<le> tx" "tx \<le> round_double (round_double (of_int 9) * round_double (10 powi (- 1)))"
    unfolding tx_def by (rule digit_term [OF ds(10) tenth_nonneg])+
  have ty: "0 \<le> ty" "ty \<le> round_double (round_double (of_int 9) * round_double (10 powi (- 1)))"
    unfolding ty_def by (rule digit_term [OF ds(9) tenth_nonneg])+
  have tz: "0 \<le> tz" "tz \<le> round_double (round_double (of_int 9) * round_double (10 powi (- 2)))"
    unfolding tz_def by (rule digit_term [OF ds(11) hundredth_nonneg])+
  have rX0: "0 \<le> round_double (of_int Xi)" using Xi(1) by (intro round_double_nonneg) simp
  have rX: "round_double (of_int Xi) \<le> round_double (of_int 49999)"
    using Xi by (rule round_double_of_int_mono)
  have x0: "0 \<le> x" unfolding x_def using rX0 tx(1) by (intro round_double_nonneg) simp
  have "x \<le> round_double (round_double (of_int 49999)
     + round_double (round_double (of_int 9) * round_double (10 powi (- 1))))"
    unfolding x_def using rX0 rX tx by (rule round_double_add_mono)
  with x_largest have xW: "x < of_int WIDTH" by (simp add: WIDTH_def)
  have Yi_nonneg: "0 \<le> Yi" using Y0 Yi0(1) by simp
  have rY0: "0 \<le> round_double (of_int Yi)" using Yi_nonneg by (intro round_double_nonneg) simp
  have s1: "0 \<le> round_double (round_double (of_int Yi) + ty)"
    using rY0 ty(1) by (intro round_double_nonneg) simp
  have y0: "0 \<le> y" unfolding y_def using s1 tz(1) by (intro round_double_nonneg) simp
  have low: "y < of_int HEIGHT" if "digit_value c0 \<le> 1"
  proof -
    from that Q(2) have "Y \<le> 20001" by (simp add: Y_def)
    with Yi0(2) have "Yi \<le> 30000" by simp
    with Yi_nonneg have "round_double (of_int Yi) \<le> round_double (of_int 30000)"
      by (rule round_double_of_int_mono)
    with rY0 have "round_double (round_double (of_int Yi) + ty) \<le>
        round_double (round_double (of_int 30000)
          + round_double (round_double (of_int 9) * round_double (10 powi (- 1))))"
      using ty by (rule round_double_add_mono)
    with s1 have "y \<le> round_double
       (round_double (round_double (of_int 30000)
          + round_double (round_double (of_int 9) * round_double (10 powi (- 1))))
        + round_double (round_double (of_int 9) * round_double (10 powi (- 2))))"
      unfolding y_def using tz by (rule round_double_add_mono)
    with y_largest show ?thesis by (simp add: HEIGHT_def)
  qed
  have high: "of_int HEIGHT \<le> y" if "\<not> digit_value c0 \<le> 1"
  proof -
    from that Q(1) have "40000 \<le> Y" by (simp add: Y_def)
    with Yi0(1) have "(40000 :: rat) \<le> of_int Yi" by simp
    then have "round_double 40000 \<le> round_double (of_int Yi)"
      by (intro round_double_mono) simp_all
    then have "40000 \<le> round_double (of_int Yi) + ty"
      using ty(1) by (simp add: round_double_40000)
    then have "round_double 40000 \<le> round_double (round_double (of_int Yi) + ty)"
      by (intro round_double_mono) simp_all
    then have "40000 \<le> round_double (round_double (of_int Yi) + ty) + tz"
      using tz(1) by (simp add: round_double_40000)
    then have "round_double 40000 \<le> y"
      unfolding y_def by (intro round_double_mono) simp_all
    then show ?thesis by (simp add: round_double_40000 HEIGHT_def)
  qed
  have "y < of_int HEIGHT \<longleftrightarrow> hd isbn = CHR ''0'' \<or> hd isbn = CHR ''1''"
    using low high first by (auto simp: s)
  with g x0 xW y0 show ?thesis by blast
qed

text \<open>
  The largest thirteen digits on the canvas: \<open>get_pos\<close> returns the floats that Python
  prints as \<open>49999.9\<close> and \<open>30000.99\<close>.
\<close>

lemma get_pos_largest:
  "get_pos ''1999999999999'' =
     Inr (PyFloat (6871933929704653 / 137438953472), PyFloat (8246609337447875 / 274877906944))"
  by code_simp

theorem get_pos_on_canvas_witness:
  "get_pos ''1999999999999'' =
     Inr (PyFloat (6871933929704653 / 137438953472), PyFloat (8246609337447875 / 274877906944)) \<and>
   (6871933929704653 / 137438953472 :: rat) < of_int WIDTH \<and>
   (8246609337447875 / 274877906944 :: rat) < of_int HEIGHT"
proof -
  have "\<exists>x y. get_pos ''1999999999999'' = Inr (PyFloat x, PyFloat y) \<and> 0 \<le> x \<and>
          x < of_int WIDTH \<and> 0 \<le> y \<and>
          (y < of_int HEIGHT \<longleftrightarrow>
             hd ''1999999999999'' = CHR ''0'' \<or> hd ''1999999999999'' = CHR ''1'')"
    by (rule get_pos_on_canvas) (simp_all add: is_digit_def)
  then show ?thesis unfolding get_pos_largest by auto
qed

section \<open>The order of the output file\<close>

lemma write_results_run: "write_results (map Result arrival @ Sentinel # later) = concat arrival"
  by (induction arrival) simp_all

lemma interleaving_mset: "interleaving outs arrival \<Longrightarrow> mset arrival = mset (concat outs)"
proof (induction rule: interleaving.induct)
  case (finished outs)
  then have "concat outs = []" by simp
  then show ?case by simp
next
  case (next_from w outs b q arrival)
  have split: "outs = take w outs @ (b # q) # drop (Suc w) outs"
    using next_from(1,2) by (metis id_take_nth_drop)
  have upd: "outs[w := q] = take w outs @ q # drop (Suc w) outs"
    using next_from(1) by (simp add: upd_conv_take_nth_drop)
  have "mset (concat outs) = mset (concat (take w outs)) + mset (b # q) + mset (concat (drop (Suc w) outs))"
    by (subst split) simp
  moreover have "mset (concat (outs[w := q])) =
      mset (concat (take w outs)) + mset q + mset (concat (drop (Suc w) outs))"
    by (simp add: upd)
  ultimately show ?case using next_from.IH by simp
qed

lemma interleaving_single:
  "interleaving outs arrival \<Longrightarrow> outs = [out] \<Longrightarrow> arrival = out"
proof (induction arbitrary: out rule: interleaving.induct)
  case (finished outs)
  then show ?case by simp
next
  case (next_from w outs b q arrival)
  from next_from.prems next_from.hyps(1,2) have w: "w = 0" and out: "out = b # q" by simp_all
  have "outs[w := q] = [q]" by (simp add: w next_from.prems)
  from next_from.IH [OF this] show ?case by (simp add: out)
qed

lemma concat_concat_map: "concat (concat xss) = concat (map concat xss)"
  by (induction xss) simp_all

lemma interleaving_in_order: "interleaving [[a], [b]] [b, a]"
proof -
  have "interleaving [[], []] []" by (rule finished) simp
  then have "interleaving ([[a], []][0 := []]) []" by simp
  then have "interleaving [[a], []] [a]" by (rule next_from [rotated 2]) simp_all
  then have "interleaving ([[a], [b]][1 := []]) [a]" by simp
  then show ?thesis by (rule next_from [rotated 2]) simp_all
qed

text \<open>
  Claim C10 fails: the writer writes the buffers as they come. With two workers that
  put one buffer each, the buffer of worker 1 can arrive first, and the file then holds
  it before the buffer of worker 0.
\<close>

theorem output_order_counterexample:
  "interleaving [[[0x00]], [[0x01]]] [[0x01], [0x00 :: byte]] \<and>
   write_results (run_queue [[0x01], [0x00]]) = [0x01, 0x00] \<and>
   concat (map concat [[[0x00]], [[0x01 :: byte]]]) = [0x00, 0x01] \<and>
   write_results (run_queue [[0x01], [0x00]]) \<noteq> concat (map concat [[[0x00]], [[0x01 :: byte]]])"
  using interleaving_in_order [of "[0x00 :: byte]" "[0x01]"]
  by (simp add: run_queue_def)

text \<open>
  Claim C10, amended. In every run of the driver the output file is the concatenation
  of the workers' buffers in the order in which they arrive on the result queue, and
  every buffer of every worker arrives once. The file is the concatenation of the
  per-worker outputs in worker-id order when the buffers arrive in that order, as they
  do with one worker.
\<close>

theorem output_order:
  "write_results (run_queue arrival) = concat arrival \<and>
   (interleaving outs arrival \<longrightarrow> mset arrival = mset (concat outs)) \<and>
   (arrival = concat outs \<longrightarrow> write_results (run_queue arrival) = concat (map concat outs)) \<and>
   (interleaving [out] arrival \<longrightarrow> write_results (run_queue arrival) = concat out)"
proof (intro conjI impI)
  show w: "write_results (run_queue arrival) = concat arrival"
    unfolding run_queue_def by (rule write_results_run)
  show "mset arrival = mset (concat outs)" if "interleaving outs arrival"
    using that by (rule interleaving_mset)
  show "write_results (run_queue arrival) = concat (map concat outs)" if "arrival = concat outs"
    using that w by (simp add: concat_concat_map)
  show "write_results (run_queue arrival) = concat out" if "interleaving [out] arrival"
    using interleaving_single [OF that refl] w by simp
qed

text \<open>
  Two workers with the buffers \<open>00\<close> and \<open>01\<close>: when the buffers arrive in worker-id
  order the file is \<open>00 01\<close>.
\<close>

theorem output_order_witness:
  "write_results (run_queue [[0x00], [0x01]]) = [0x00, 0x01 :: byte] \<and>
   mset [[0x01], [0x00 :: byte]] = mset (concat [[[0x00]], [[0x01]]]) \<and>
   write_results (run_queue [[0x05, 0x06 :: byte], [0x07]]) = concat [[0x05, 0x06], [0x07]]"
proof -
  have i: "interleaving [[[0x00 :: byte]], [[0x01]]] [[0x01], [0x00]]"
    by (rule interleaving_in_order)
  have s: "interleaving [[[0x05, 0x06 :: byte], [0x07]]] [[0x05, 0x06], [0x07]]"
  proof -
    have "interleaving [[] :: byte list list] []" by (rule finished) simp
    then have "interleaving ([[[0x07 :: byte]]][0 := []]) []" by simp
    then have "interleaving [[[0x07 :: byte]]] [[0x07]]"
      by (rule next_from [rotated 2]) simp_all
    then have "interleaving ([[[0x05, 0x06 :: byte], [0x07]]][0 := [[0x07]]]) [[0x07]]" by simp
    then show ?thesis by (rule next_from [rotated 2]) simp_all
  qed
  from output_order [of "[[0x00], [0x01 :: byte]]" "[[[0x00]], [[0x01]]]"]
  have a: "write_results (run_queue [[0x00], [0x01]]) = [0x00, 0x01 :: byte]" by simp
  from output_order [of "[[0x01], [0x00 :: byte]]" "[[[0x00]], [[0x01]]]"] i
  have b: "mset [[0x01], [0x00 :: byte]] = mset (concat [[[0x00]], [[0x01]]])" by blast
  from output_order [of "[[0x05, 0x06 :: byte], [0x07]]" _ "[[0x05, 0x06], [0x07]]"] s
  have c: "write_results (run_queue [[0x05, 0x06 :: byte], [0x07]]) = concat [[0x05, 0x06], [0x07]]"
    by blast
  from a b c show ?thesis by blast
qed

end
